theory Spec2Isabelle
  imports Main "HOL-Library.AList" "HOL-Library.List_Lexorder" "HOL-Library.Multiset"
begin

section \<open>Data model\<close>

text \<open>
  The repository holds two solvers for the same problem: the staged engine of
  \<^verbatim>\<open>AssignStudentsNew.py\<close> and the older brute-force script \<^verbatim>\<open>AssignStudents.py\<close> with its
  helper classes in \<^verbatim>\<open>AlgorithmUtilities.py\<close>. Both are embedded here.

  Student names and options are Python strings. A Python \<^verbatim>\<open>dict\<close> is an association list
  in insertion order (the order in which Python iterates it) whose keys are distinct; a
  Python \<^verbatim>\<open>set\<close> of names is a list without duplicates, and the order in which the model
  iterates such a set is the order in which the elements were added. Every exception the
  code can raise is a value of type \<open>error\<close>.
\<close>

datatype error = AssertionError | KeyError | IndexError | AttributeError | TypeError | ValueError

record student =
  name :: string
  high_priority :: bool
  choices :: "string list"

text \<open>\<^verbatim>\<open>Student.get_choice(rank)\<close> is \<^verbatim>\<open>self.choices[rank - 1]\<close>: rank 0 reads index -1,
  the last element, and an index past the end raises IndexError.\<close>

definition get_choice :: "student \<Rightarrow> nat \<Rightarrow> error + string" where
  "get_choice st rank =
     (if rank = 0 then (if choices st = [] then Inl IndexError else Inr (last (choices st)))
      else if rank - 1 < length (choices st) then Inr (choices st ! (rank - 1))
      else Inl IndexError)"

text \<open>Python sets of names: \<^verbatim>\<open>add\<close> and \<^verbatim>\<open>remove\<close> (which raises KeyError on a missing
  element). A set is a list without duplicates, kept in the order of insertion; Python
  leaves the order in which a set is iterated open, and the model iterates in this one.\<close>

definition set_add :: "string \<Rightarrow> string list \<Rightarrow> string list" where
  "set_add s xs = (if s \<in> set xs then xs else xs @ [s])"

definition set_remove :: "string \<Rightarrow> string list \<Rightarrow> error + string list" where
  "set_remove s xs = (if s \<in> set xs then Inr (removeAll s xs) else Inl KeyError)"

subsection \<open>The Matching class of AssignStudentsNew.py\<close>

record matching =
  by_student :: "(string \<times> string option) list"
  by_option :: "(string \<times> string list) list"
  student_locked :: "(string \<times> bool) list"

text \<open>\<^verbatim>\<open>Matching.__init__\<close>: both asserts compare the number of keys with the length of
  the list the keys came from.\<close>

definition Matching_init :: "student list \<Rightarrow> string list \<Rightarrow> error + matching" where
  "Matching_init students options =
     (let bs = fold (\<lambda>st d. AList.update (name st) None d) students [];
          bo = fold (\<lambda>opt d. AList.update opt [] d) options []
      in if length bs \<noteq> length students then Inl AssertionError
         else if length bo \<noteq> length options then Inl AssertionError
         else Inr \<lparr>by_student = bs, by_option = bo,
                   student_locked = fold (\<lambda>s d. AList.update s False d) (map fst bs) []\<rparr>)"

definition is_matched :: "matching \<Rightarrow> string \<Rightarrow> error + bool" where
  "is_matched m s = (case map_of (by_student m) s of None \<Rightarrow> Inl KeyError | Some v \<Rightarrow> Inr (v \<noteq> None))"

definition is_locked :: "matching \<Rightarrow> string \<Rightarrow> error + bool" where
  "is_locked m s = (case map_of (student_locked m) s of None \<Rightarrow> Inl KeyError | Some b \<Rightarrow> Inr b)"

definition get_match :: "matching \<Rightarrow> string \<Rightarrow> error + string option" where
  "get_match m s = (case map_of (by_student m) s of None \<Rightarrow> Inl KeyError | Some v \<Rightarrow> Inr v)"

text \<open>
  \<^verbatim>\<open>assign\<close>, \<^verbatim>\<open>erase\<close>, \<^verbatim>\<open>lock\<close> and \<^verbatim>\<open>unlock\<close> are the only methods that write to the three
  dicts. In each of them every statement that can raise comes before the first write,
  so a call either raises and leaves the object as it was, or returns the new object.
  The option given to \<^verbatim>\<open>assign\<close> is any Python value; \<^verbatim>\<open>None\<close> is not a key of
  \<^verbatim>\<open>by_option\<close>.
\<close>

definition assign :: "matching \<Rightarrow> string \<Rightarrow> string option \<Rightarrow> error + matching" where
  "assign m s v =
     (case is_matched m s of Inl e \<Rightarrow> Inl e
      | Inr True \<Rightarrow> Inl AssertionError
      | Inr False \<Rightarrow>
     (case is_locked m s of Inl e \<Rightarrow> Inl e
      | Inr True \<Rightarrow> Inl AssertionError
      | Inr False \<Rightarrow>
     (case v of None \<Rightarrow> Inl KeyError
      | Some opt \<Rightarrow>
     (case map_of (by_option m) opt of None \<Rightarrow> Inl KeyError
      | Some xs \<Rightarrow>
          Inr (m\<lparr>by_option := AList.update opt (set_add s xs) (by_option m),
                 by_student := AList.update s (Some opt) (by_student m)\<rparr>)))))"

definition erase :: "matching \<Rightarrow> string \<Rightarrow> error + matching" where
  "erase m s =
     (case is_matched m s of Inl e \<Rightarrow> Inl e
      | Inr False \<Rightarrow> Inl AssertionError
      | Inr True \<Rightarrow>
     (case is_locked m s of Inl e \<Rightarrow> Inl e
      | Inr True \<Rightarrow> Inl AssertionError
      | Inr False \<Rightarrow>
     (case map_of (by_student m) s of None \<Rightarrow> Inl KeyError
      | Some None \<Rightarrow> Inl KeyError
      | Some (Some opt) \<Rightarrow>
     (case map_of (by_option m) opt of None \<Rightarrow> Inl KeyError
      | Some xs \<Rightarrow>
     (case set_remove s xs of Inl e \<Rightarrow> Inl e
      | Inr xs' \<Rightarrow>
          Inr (m\<lparr>by_option := AList.update opt xs' (by_option m),
                 by_student := AList.update s None (by_student m)\<rparr>))))))"

definition lock :: "matching \<Rightarrow> string \<Rightarrow> error + matching" where
  "lock m s =
     (case is_locked m s of Inl e \<Rightarrow> Inl e
      | Inr True \<Rightarrow> Inl AssertionError
      | Inr False \<Rightarrow> Inr (m\<lparr>student_locked := AList.update s True (student_locked m)\<rparr>))"

definition unlock :: "matching \<Rightarrow> string \<Rightarrow> error + matching" where
  "unlock m s =
     (case is_locked m s of Inl e \<Rightarrow> Inl e
      | Inr False \<Rightarrow> Inl AssertionError
      | Inr True \<Rightarrow> Inr (m\<lparr>student_locked := AList.update s False (student_locked m)\<rparr>))"

text \<open>The read-only queries.\<close>

definition get_n_unmatched :: "matching \<Rightarrow> nat" where
  "get_n_unmatched m = length (filter (\<lambda>(s, v). v = None) (by_student m))"

definition list_unmatched_students :: "matching \<Rightarrow> string list" where
  "list_unmatched_students m = map fst (filter (\<lambda>(s, v). v = None) (by_student m))"

fun reduce_pairs :: "(string \<times> string option) list \<Rightarrow> error + (string \<times> string) list" where
  "reduce_pairs [] = Inr []"
| "reduce_pairs ((s, None) # rest) = Inl AssertionError"
| "reduce_pairs ((s, Some opt) # rest) =
     (case reduce_pairs rest of Inl e \<Rightarrow> Inl e | Inr ps \<Rightarrow> Inr ((s, opt) # ps))"

definition reduce_to_pairs :: "matching \<Rightarrow> error + (string \<times> string) list" where
  "reduce_to_pairs m = reduce_pairs (by_student m)"

definition list_overfilled_options :: "matching \<Rightarrow> nat \<Rightarrow> string list" where
  "list_overfilled_options m threshold =
     map fst (filter (\<lambda>(opt, xs). length xs > threshold) (by_option m))"

definition list_underfilled_options :: "matching \<Rightarrow> nat \<Rightarrow> string list" where
  "list_underfilled_options m threshold =
     concat (map (\<lambda>(opt, xs). if length xs < threshold
                               then replicate (threshold - length xs) opt else [])
                 (by_option m))"

definition list_empty_spots :: "matching \<Rightarrow> nat \<Rightarrow> nat \<Rightarrow> string list" where
  "list_empty_spots m low_threshold high_threshold =
     concat (map (\<lambda>(opt, xs). if low_threshold \<le> length xs \<and> length xs < high_threshold
                               then replicate (high_threshold - length xs) opt else [])
                 (by_option m))"

definition list_students_for_option :: "matching \<Rightarrow> string \<Rightarrow> error + string list" where
  "list_students_for_option m opt =
     (case map_of (by_option m) opt of None \<Rightarrow> Inl KeyError | Some xs \<Rightarrow> Inr xs)"

text \<open>\<^verbatim>\<open>itertools.combinations(xs, k)\<close>: the k-element subsequences of \<open>xs\<close>, in
  lexicographic order of their positions; none when \<open>k\<close> exceeds the length.\<close>

fun combinations :: "'a list \<Rightarrow> nat \<Rightarrow> 'a list list" where
  "combinations xs 0 = [[]]"
| "combinations [] (Suc k) = []"
| "combinations (x # xs) (Suc k) = map (Cons x) (combinations xs k) @ combinations xs (Suc k)"

fun unlocked_of :: "matching \<Rightarrow> string list \<Rightarrow> error + string list" where
  "unlocked_of m [] = Inr []"
| "unlocked_of m (s # ss) =
     (case is_locked m s of Inl e \<Rightarrow> Inl e
      | Inr b \<Rightarrow> (case unlocked_of m ss of Inl e \<Rightarrow> Inl e
                  | Inr rest \<Rightarrow> Inr (if b then rest else s # rest)))"

definition make_trim_iterable :: "matching \<Rightarrow> string \<Rightarrow> nat \<Rightarrow> error + string list list" where
  "make_trim_iterable m opt threshold =
     (case map_of (by_option m) opt of None \<Rightarrow> Inl KeyError
      | Some xs \<Rightarrow>
          if \<not> length xs > threshold then Inl AssertionError
          else (case unlocked_of m xs of Inl e \<Rightarrow> Inl e
                | Inr removable \<Rightarrow> Inr (combinations removable (length xs - threshold))))"

subsection \<open>The Matching class of AlgorithmUtilities.py\<close>

record au_matching =
  au_by_option :: "(string \<times> string list) list"
  au_by_student :: "(string \<times> string option) list"

definition au_Matching_init :: "string list \<Rightarrow> string list \<Rightarrow> au_matching" where
  "au_Matching_init options students =
     \<lparr>au_by_option = fold (\<lambda>opt d. AList.update opt [] d) options [],
      au_by_student = fold (\<lambda>s d. AList.update s None d) students []\<rparr>"

text \<open>\<^verbatim>\<open>add_pair\<close> and \<^verbatim>\<open>delete_pair\<close> first find out which argument is the option and which
  the student.\<close>

definition which_way :: "au_matching \<Rightarrow> string \<Rightarrow> string \<Rightarrow> error + (string \<times> string)" where
  "which_way m u v =
     (if u \<in> fst ` set (au_by_option m) \<and> v \<in> fst ` set (au_by_student m) then Inr (u, v)
      else if v \<in> fst ` set (au_by_option m) \<and> u \<in> fst ` set (au_by_student m) then Inr (v, u)
      else Inl KeyError)"

definition add_pair :: "au_matching \<Rightarrow> string \<Rightarrow> string \<Rightarrow> error + au_matching" where
  "add_pair m u v =
     (case which_way m u v of Inl e \<Rightarrow> Inl e
      | Inr (opt, s) \<Rightarrow>
     (case map_of (au_by_student m) s of None \<Rightarrow> Inl KeyError
      | Some (Some other) \<Rightarrow> Inl ValueError
      | Some None \<Rightarrow>
     (case map_of (au_by_option m) opt of None \<Rightarrow> Inl KeyError
      | Some xs \<Rightarrow>
          Inr (m\<lparr>au_by_option := AList.update opt (set_add s xs) (au_by_option m),
                 au_by_student := AList.update s (Some opt) (au_by_student m)\<rparr>))))"

definition delete_pair :: "au_matching \<Rightarrow> string \<Rightarrow> string \<Rightarrow> error + au_matching" where
  "delete_pair m u v =
     (case which_way m u v of Inl e \<Rightarrow> Inl e
      | Inr (opt, s) \<Rightarrow>
     (case map_of (au_by_student m) s of None \<Rightarrow> Inl KeyError
      | Some cur \<Rightarrow>
          if cur \<noteq> Some opt then Inl ValueError
          else (case map_of (au_by_option m) opt of None \<Rightarrow> Inl KeyError
                | Some xs \<Rightarrow>
               (case set_remove s xs of Inl e \<Rightarrow> Inl e
                | Inr xs' \<Rightarrow>
                    Inr (m\<lparr>au_by_option := AList.update opt xs' (au_by_option m),
                           au_by_student := AList.update s None (au_by_student m)\<rparr>)))))"

text \<open>\<^verbatim>\<open>underfilled(limit=1)\<close> builds a Python set by a comprehension over the items of
  \<^verbatim>\<open>by_option\<close>.\<close>

definition underfilled :: "au_matching \<Rightarrow> nat \<Rightarrow> string list" where
  "underfilled m limit = map fst (filter (\<lambda>(x, y). length y < limit) (au_by_option m))"

subsection \<open>The scorer of AssignStudentsNew.py\<close>

text \<open>
  \<^verbatim>\<open>score[k] += 1\<close> on a Python list raises IndexError when \<open>k\<close> is past the end.
\<close>

definition incr :: "int list \<Rightarrow> nat \<Rightarrow> error + int list" where
  "incr score k = (if k < length score then Inr (score[k := score ! k + 1]) else Inl IndexError)"

text \<open>The inner loop \<^verbatim>\<open>for i in range(1, n_choices + 1): if student.get_choice(i) == assigned\<close>,
  which the scorer, the resolver and the printer share: the first rank whose choice is
  the assigned value, if any. An unassigned student's value \<^verbatim>\<open>None\<close> equals no choice.\<close>

fun find_rank :: "student \<Rightarrow> string option \<Rightarrow> nat list \<Rightarrow> error + nat option" where
  "find_rank st assigned [] = Inr None"
| "find_rank st assigned (i # ranks) =
     (case get_choice st i of Inl e \<Rightarrow> Inl e
      | Inr c \<Rightarrow> if Some c = assigned then Inr (Some i) else find_rank st assigned ranks)"

fun score_loop :: "matching \<Rightarrow> student list \<Rightarrow> nat \<Rightarrow> int list \<Rightarrow> error + int list" where
  "score_loop m [] n_choices score = Inr score"
| "score_loop m (st # sts) n_choices score =
     (case get_match m (name st) of Inl e \<Rightarrow> Inl e
      | Inr assigned \<Rightarrow>
     (case find_rank st assigned [1..<n_choices + 1] of Inl e \<Rightarrow> Inl e
      | Inr None \<Rightarrow> score_loop m sts n_choices score
      | Inr (Some i) \<Rightarrow>
     (case incr score 0 of Inl e \<Rightarrow> Inl e
      | Inr s1 \<Rightarrow>
     (case incr s1 i of Inl e \<Rightarrow> Inl e
      | Inr s2 \<Rightarrow>
          if high_priority st
          then (case incr s2 (n_choices + i) of Inl e \<Rightarrow> Inl e
                | Inr s3 \<Rightarrow> score_loop m sts n_choices s3)
          else score_loop m sts n_choices s2))))"

definition score_assignment ::
  "matching \<Rightarrow> student list \<Rightarrow> string list \<Rightarrow> nat \<Rightarrow> nat \<Rightarrow> nat \<Rightarrow> error + int list" where
  "score_assignment m students options n_choices min_per_option max_per_option =
     score_loop m students n_choices (0 # replicate (2 * n_choices) 0)"

subsection \<open>The scorer of AlgorithmUtilities.py\<close>

record score_calculator =
  sc_n_choices :: nat
  sc_choices :: "(string \<times> string list) list"
  sc_high_priority :: "(string \<times> bool) list"

text \<open>\<^verbatim>\<open>ScoreCalculator.__init__\<close> takes the two dicts; it raises TypeError when their key
  sets differ or when the choice lists do not all have one length (so also when there
  is no student at all).\<close>

definition ScoreCalculator_init ::
  "(string \<times> string list) list \<Rightarrow> (string \<times> bool) list \<Rightarrow> error + score_calculator" where
  "ScoreCalculator_init chs hps =
     (if fst ` set chs \<noteq> fst ` set hps then Inl TypeError
      else (case remdups (map (\<lambda>(nm, picks). length picks) chs) of
              [n] \<Rightarrow> Inr \<lparr>sc_n_choices = n, sc_choices = chs, sc_high_priority = hps\<rparr>
            | _ \<Rightarrow> Inl TypeError))"

text \<open>\<^verbatim>\<open>Matching.lookup\<close> of the old class answers for a student (the option or None) and
  for an option (a copy of its set).\<close>

datatype looked_up = Matched "string option" | Students "string list"

definition lookup :: "au_matching \<Rightarrow> string \<Rightarrow> error + looked_up" where
  "lookup m u =
     (case map_of (au_by_student m) u of Some v \<Rightarrow> Inr (Matched v)
      | None \<Rightarrow> (case map_of (au_by_option m) u of Some xs \<Rightarrow> Inr (Students xs)
                 | None \<Rightarrow> Inl KeyError))"

text \<open>\<^verbatim>\<open>list.index\<close>, with None for the ValueError that \<^verbatim>\<open>calculate_score\<close> catches.\<close>

fun index_of :: "string list \<Rightarrow> string \<Rightarrow> nat option" where
  "index_of [] x = None"
| "index_of (y # ys) x = (if y = x then Some 0 else map_option Suc (index_of ys x))"

fun calculate_loop ::
  "score_calculator \<Rightarrow> au_matching \<Rightarrow> (string \<times> string list) list \<Rightarrow> int list \<Rightarrow> error + int list" where
  "calculate_loop sc m [] score = Inr score"
| "calculate_loop sc m ((nm, picks) # rest) score =
     (case lookup m nm of Inl e \<Rightarrow> Inl e
      | Inr assigned \<Rightarrow>
     (case map_of (sc_high_priority sc) nm of None \<Rightarrow> Inl KeyError
      | Some hp \<Rightarrow>
     (case assigned of
        Matched None \<Rightarrow> Inl ValueError
      | Students xs \<Rightarrow>
          (if score = [] then Inl IndexError
           else calculate_loop sc m rest (score[0 := score ! 0 - 1]))
      | Matched (Some opt) \<Rightarrow>
     (case index_of picks opt of
        None \<Rightarrow>
          (if score = [] then Inl IndexError
           else calculate_loop sc m rest (score[0 := score ! 0 - 1]))
      | Some rank \<Rightarrow>
     (case incr score (1 + rank) of Inl e \<Rightarrow> Inl e
      | Inr s1 \<Rightarrow>
          if hp
          then (case incr s1 (1 + sc_n_choices sc + rank) of Inl e \<Rightarrow> Inl e
                | Inr s2 \<Rightarrow> calculate_loop sc m rest s2)
          else calculate_loop sc m rest s1)))))"

definition calculate_score :: "score_calculator \<Rightarrow> au_matching \<Rightarrow> error + int list" where
  "calculate_score sc m =
     calculate_loop sc m (sc_choices sc)
       (int (length (sc_choices sc)) # replicate (sc_n_choices sc * 2) 0)"

section \<open>The staged search engine of AssignStudentsNew.py\<close>

text \<open>
  The engine works on the one \<^verbatim>\<open>Matching\<close> object that \<^verbatim>\<open>main\<close> creates and on Python's
  global random generator. Both are threaded through the model as a \<open>world\<close>. A call
  returns its outcome together with the world it leaves behind, also when it raises:
  a Python exception does not undo the writes made before it.

  \<^item> \<open>match\<close> is the current value of the \<^verbatim>\<open>Matching\<close> object.
  \<^item> \<open>draws\<close> and \<open>cursor\<close> are the random source: an arbitrary infinite sequence of
    numbers and the position of the next unread one.
  \<^item> \<open>history\<close> and \<open>explored\<close> are not part of the program; they record what it does.
    \<open>history\<close> lists, newest first, every value the \<^verbatim>\<open>Matching\<close> object has taken after
    a successful call of \<^verbatim>\<open>assign\<close>, \<^verbatim>\<open>erase\<close>, \<^verbatim>\<open>lock\<close> or \<^verbatim>\<open>unlock\<close>. \<open>explored\<close> lists,
    newest first, every pair list and score the base case has returned.
\<close>

record world =
  match :: matching
  draws :: "nat \<Rightarrow> nat"
  cursor :: nat
  history :: "matching list"
  explored :: "((string \<times> string) list \<times> int list) list"

type_synonym 'a outcome = "(error + 'a) \<times> world"

definition mutate :: "(matching \<Rightarrow> error + matching) \<Rightarrow> world \<Rightarrow> unit outcome" where
  "mutate f w =
     (case f (match w) of Inl e \<Rightarrow> (Inl e, w)
      | Inr m' \<Rightarrow> (Inr (), w\<lparr>match := m', history := m' # history w\<rparr>))"

text \<open>
  \<^verbatim>\<open>random.shuffle(x)\<close> is the Fisher-Yates loop of Python's library:
  \<^verbatim>\<open>for i in reversed(range(1, len(x))): j = randbelow(i + 1); x[i], x[j] = x[j], x[i]\<close>.
  The number below \<open>i + 1\<close> is the next draw modulo \<open>i + 1\<close>.
\<close>

fun fisher_yates :: "(nat \<Rightarrow> nat) \<Rightarrow> nat \<Rightarrow> nat \<Rightarrow> 'a list \<Rightarrow> 'a list" where
  "fisher_yates rnd c 0 xs = xs"
| "fisher_yates rnd c (Suc k) xs =
     (let i = Suc k; j = rnd c mod (i + 1)
      in fisher_yates rnd (Suc c) k (xs[i := xs ! j, j := xs ! i]))"

definition shuffle :: "'a list \<Rightarrow> world \<Rightarrow> 'a list \<times> world" where
  "shuffle xs w =
     (fisher_yates (draws w) (cursor w) (length xs - 1) xs,
      w\<lparr>cursor := cursor w + (length xs - 1)\<rparr>)"

subsection \<open>The loops of class Matching\<close>

fun assign_pairs :: "(string \<times> string option) list \<Rightarrow> world \<Rightarrow> unit outcome" where
  "assign_pairs [] w = (Inr (), w)"
| "assign_pairs ((s, v) # ps) w =
     (case mutate (\<lambda>m. assign m s v) w of (Inl e, w1) \<Rightarrow> (Inl e, w1)
      | (Inr u, w1) \<Rightarrow> assign_pairs ps w1)"

fun erase_many :: "string list \<Rightarrow> world \<Rightarrow> unit outcome" where
  "erase_many [] w = (Inr (), w)"
| "erase_many (s # ss) w =
     (case mutate (\<lambda>m. erase m s) w of (Inl e, w1) \<Rightarrow> (Inl e, w1)
      | (Inr u, w1) \<Rightarrow> erase_many ss w1)"

fun erase_all_loop :: "string list \<Rightarrow> world \<Rightarrow> unit outcome" where
  "erase_all_loop [] w = (Inr (), w)"
| "erase_all_loop (s # ss) w =
     (case is_matched (match w) s of Inl e \<Rightarrow> (Inl e, w)
      | Inr False \<Rightarrow> erase_all_loop ss w
      | Inr True \<Rightarrow>
          (case mutate (\<lambda>m. erase m s) w of (Inl e, w1) \<Rightarrow> (Inl e, w1)
           | (Inr u, w1) \<Rightarrow> erase_all_loop ss w1))"

definition erase_all :: "world \<Rightarrow> unit outcome" where
  "erase_all w = erase_all_loop (map fst (by_student (match w))) w"

fun lock_matched_loop :: "string list \<Rightarrow> world \<Rightarrow> string list outcome" where
  "lock_matched_loop [] w = (Inr [], w)"
| "lock_matched_loop (s # ss) w =
     (case is_matched (match w) s of Inl e \<Rightarrow> (Inl e, w)
      | Inr False \<Rightarrow> lock_matched_loop ss w
      | Inr True \<Rightarrow>
     (case is_locked (match w) s of Inl e \<Rightarrow> (Inl e, w)
      | Inr True \<Rightarrow> lock_matched_loop ss w
      | Inr False \<Rightarrow>
     (case mutate (\<lambda>m. lock m s) w of (Inl e, w1) \<Rightarrow> (Inl e, w1)
      | (Inr u, w1) \<Rightarrow>
     (case lock_matched_loop ss w1 of (Inl e, w2) \<Rightarrow> (Inl e, w2)
      | (Inr were_locked, w2) \<Rightarrow> (Inr (s # were_locked), w2)))))"

definition lock_all_matched :: "world \<Rightarrow> string list outcome" where
  "lock_all_matched w = lock_matched_loop (map fst (by_student (match w))) w"

fun unlock_many :: "string list \<Rightarrow> world \<Rightarrow> unit outcome" where
  "unlock_many [] w = (Inr (), w)"
| "unlock_many (s # ss) w =
     (case mutate (\<lambda>m. unlock m s) w of (Inl e, w1) \<Rightarrow> (Inl e, w1)
      | (Inr u, w1) \<Rightarrow> unlock_many ss w1)"

subsection \<open>The unhappy-student resolver\<close>

text \<open>
  \<^verbatim>\<open>find_more_unhappy_students\<close> first fills the \<^verbatim>\<open>happiness\<close> and \<^verbatim>\<open>priority\<close> dicts, one
  entry per student. Its second loop, over \<^verbatim>\<open>options\<close>, starts with the call
  \<^verbatim>\<open>match.list_students_by_option(option)\<close>. Class \<^verbatim>\<open>Matching\<close> has no method of that name
  (the method it defines is \<^verbatim>\<open>list_students_for_option\<close>), so the attribute lookup raises
  AttributeError in the first round of the loop, before any tier is computed. Only with
  an empty \<^verbatim>\<open>options\<close> list does the function get past that loop; then \<^verbatim>\<open>tiers\<close> is the
  empty dict, and the final sort by \<^verbatim>\<open>tiers[x]\<close> raises KeyError unless the queue is empty.
\<close>

fun happiness_loop ::
  "matching \<Rightarrow> student list \<Rightarrow> nat \<Rightarrow> (string \<times> nat) list \<Rightarrow> error + (string \<times> nat) list" where
  "happiness_loop m [] n_choices happiness = Inr happiness"
| "happiness_loop m (st # sts) n_choices happiness =
     (case get_match m (name st) of Inl e \<Rightarrow> Inl e
      | Inr assigned \<Rightarrow>
     (case find_rank st assigned [1..<n_choices + 1] of Inl e \<Rightarrow> Inl e
      | Inr None \<Rightarrow> happiness_loop m sts n_choices (AList.update (name st) 0 happiness)
      | Inr (Some i) \<Rightarrow>
          happiness_loop m sts n_choices (AList.update (name st) (n_choices - i + 1) happiness)))"

definition find_more_unhappy_students ::
  "student list \<Rightarrow> string list \<Rightarrow> nat \<Rightarrow> nat \<Rightarrow> nat \<Rightarrow> world \<Rightarrow> string list outcome" where
  "find_more_unhappy_students students options n_choices min_per_option max_per_option w =
     (case happiness_loop (match w) students n_choices [] of Inl e \<Rightarrow> (Inl e, w)
      | Inr happiness \<Rightarrow>
          if options \<noteq> [] then (Inl AttributeError, w)
          else (case shuffle (map fst (filter (\<lambda>(s, h). h > 0) happiness)) w of
                  (queue, w1) \<Rightarrow>
                    if sort_key (\<lambda>s. - int (the (map_of happiness s))) queue = []
                    then (Inr [], w1) else (Inl KeyError, w1)))"

text \<open>The eviction loop of the base case, \<^verbatim>\<open>for i in range(len(underfilled) - n_unhappy)\<close>:
  it unlocks and erases \<^verbatim>\<open>unhappy_queue[i]\<close> and overwrites that entry by the pair of the
  student and the option held. The result is the list of those pairs.\<close>

fun evict_loop :: "string list \<Rightarrow> nat list \<Rightarrow> world \<Rightarrow> (string \<times> string option) list outcome" where
  "evict_loop queue [] w = (Inr [], w)"
| "evict_loop queue (i # rest) w =
     (if \<not> i < length queue then (Inl IndexError, w)
      else
     (case mutate (\<lambda>m. unlock m (queue ! i)) w of (Inl e, w1) \<Rightarrow> (Inl e, w1)
      | (Inr u, w1) \<Rightarrow>
     (case get_match (match w1) (queue ! i) of Inl e \<Rightarrow> (Inl e, w1)
      | Inr v \<Rightarrow>
     (case mutate (\<lambda>m. erase m (queue ! i)) w1 of (Inl e, w2) \<Rightarrow> (Inl e, w2)
      | (Inr u, w2) \<Rightarrow>
     (case evict_loop queue rest w2 of (Inl e, w3) \<Rightarrow> (Inl e, w3)
      | (Inr evicted, w3) \<Rightarrow> (Inr ((queue ! i, v) # evicted), w3))))))"

text \<open>\<^verbatim>\<open>for i, option in enumerate(underfilled): match.assign(unhappy[i], option)\<close> raises
  IndexError when the unhappy students run out.\<close>

fun fill_underfilled :: "string list \<Rightarrow> string list \<Rightarrow> world \<Rightarrow> unit outcome" where
  "fill_underfilled unhappy [] w = (Inr (), w)"
| "fill_underfilled [] (opt # opts) w = (Inl IndexError, w)"
| "fill_underfilled (s # ss) (opt # opts) w =
     (case mutate (\<lambda>m. assign m s (Some opt)) w of (Inl e, w1) \<Rightarrow> (Inl e, w1)
      | (Inr u, w1) \<Rightarrow> fill_underfilled ss opts w1)"

text \<open>\<^verbatim>\<open>for i in range(len(underfilled), len(unhappy)): match.assign(unhappy[i], empty_spots[i - len(underfilled)])\<close>,
  run over the unhappy students from position \<^verbatim>\<open>len(underfilled)\<close> on; it raises
  IndexError when the empty spots run out.\<close>

fun fill_spots :: "string list \<Rightarrow> string list \<Rightarrow> world \<Rightarrow> unit outcome" where
  "fill_spots [] spots w = (Inr (), w)"
| "fill_spots (s # ss) [] w = (Inl IndexError, w)"
| "fill_spots (s # ss) (spot # spots) w =
     (case mutate (\<lambda>m. assign m s (Some spot)) w of (Inl e, w1) \<Rightarrow> (Inl e, w1)
      | (Inr u, w1) \<Rightarrow> fill_spots ss spots w1)"

fun restore_evicted :: "(string \<times> string option) list \<Rightarrow> world \<Rightarrow> unit outcome" where
  "restore_evicted [] w = (Inr (), w)"
| "restore_evicted ((s, v) # rest) w =
     (case mutate (\<lambda>m. assign m s v) w of (Inl e, w1) \<Rightarrow> (Inl e, w1)
      | (Inr u, w1) \<Rightarrow>
     (case mutate (\<lambda>m. lock m s) w1 of (Inl e, w2) \<Rightarrow> (Inl e, w2)
      | (Inr u, w2) \<Rightarrow> restore_evicted rest w2))"

definition assignment_algorithm_base_case ::
  "student list \<Rightarrow> string list \<Rightarrow> nat \<Rightarrow> nat \<Rightarrow> nat \<Rightarrow> world
     \<Rightarrow> ((string \<times> string) list \<times> int list) outcome" where
  "assignment_algorithm_base_case students options n_choices min_per_option max_per_option w =
     (let n_unhappy = get_n_unmatched (match w);
          underfilled = list_underfilled_options (match w) min_per_option
      in
     (case (if n_unhappy < length underfilled
            then (case find_more_unhappy_students students options n_choices
                         min_per_option max_per_option w of
                    (Inl e, w1) \<Rightarrow> (Inl e, w1)
                  | (Inr unhappy_queue, w1) \<Rightarrow>
                      evict_loop unhappy_queue [0..<length underfilled - n_unhappy] w1)
            else (Inr [], w)) of
        (Inl e, w2) \<Rightarrow> (Inl e, w2)
      | (Inr evicted, w2) \<Rightarrow>
     (case shuffle (list_unmatched_students (match w2)) w2 of (unhappy, w3) \<Rightarrow>
     (case fill_underfilled unhappy underfilled w3 of (Inl e, w4) \<Rightarrow> (Inl e, w4)
      | (Inr u, w4) \<Rightarrow>
     (case (if length unhappy > length underfilled
            then (case shuffle (list_empty_spots (match w4) min_per_option max_per_option) w4 of
                    (empty_spots, w5) \<Rightarrow>
                      fill_spots (drop (length underfilled) unhappy) empty_spots w5)
            else (Inr (), w4)) of
        (Inl e, w6) \<Rightarrow> (Inl e, w6)
      | (Inr u, w6) \<Rightarrow>
     (case score_assignment (match w6) students options n_choices
             min_per_option max_per_option of Inl e \<Rightarrow> (Inl e, w6)
      | Inr score \<Rightarrow>
     (case reduce_to_pairs (match w6) of Inl e \<Rightarrow> (Inl e, w6)
      | Inr pairs \<Rightarrow>
     (case erase_many unhappy w6 of (Inl e, w7) \<Rightarrow> (Inl e, w7)
      | (Inr u, w7) \<Rightarrow>
     (case restore_evicted evicted w7 of (Inl e, w8) \<Rightarrow> (Inl e, w8)
      | (Inr u, w8) \<Rightarrow>
          (Inr (pairs, score), w8\<lparr>explored := (pairs, score) # explored w8\<rparr>))))))))))"

subsection \<open>The stages\<close>

text \<open>Stage entry: every student not yet matched is assigned the choice of this stage.
  The argument \<^verbatim>\<open>student.get_choice(stage)\<close> is evaluated before \<^verbatim>\<open>assign\<close> is entered.\<close>

fun assign_stage :: "student list \<Rightarrow> nat \<Rightarrow> world \<Rightarrow> string list outcome" where
  "assign_stage [] stage w = (Inr [], w)"
| "assign_stage (st # sts) stage w =
     (case is_matched (match w) (name st) of Inl e \<Rightarrow> (Inl e, w)
      | Inr True \<Rightarrow> assign_stage sts stage w
      | Inr False \<Rightarrow>
     (case get_choice st stage of Inl e \<Rightarrow> (Inl e, w)
      | Inr c \<Rightarrow>
     (case mutate (\<lambda>m. assign m (name st) (Some c)) w of (Inl e, w1) \<Rightarrow> (Inl e, w1)
      | (Inr u, w1) \<Rightarrow>
     (case assign_stage sts stage w1 of (Inl e, w2) \<Rightarrow> (Inl e, w2)
      | (Inr assigned_students, w2) \<Rightarrow> (Inr (name st # assigned_students), w2)))))"

fun make_trim_iterables :: "matching \<Rightarrow> string list \<Rightarrow> nat \<Rightarrow> error + string list list list" where
  "make_trim_iterables m [] threshold = Inr []"
| "make_trim_iterables m (opt # opts) threshold =
     (case make_trim_iterable m opt threshold of Inl e \<Rightarrow> Inl e
      | Inr combos \<Rightarrow>
          (case make_trim_iterables m opts threshold of Inl e \<Rightarrow> Inl e
           | Inr rest \<Rightarrow> Inr (combos # rest)))"

text \<open>One trim is a tuple of groups, one group per overfilled option. The two nested
  loops over the groups and their students save and erase the students in the order of
  \<open>concat trim\<close>.\<close>

fun remove_trimmed :: "string list \<Rightarrow> world \<Rightarrow> (string \<times> string option) list outcome" where
  "remove_trimmed [] w = (Inr [], w)"
| "remove_trimmed (s # ss) w =
     (case get_match (match w) s of Inl e \<Rightarrow> (Inl e, w)
      | Inr v \<Rightarrow>
     (case mutate (\<lambda>m. erase m s) w of (Inl e, w1) \<Rightarrow> (Inl e, w1)
      | (Inr u, w1) \<Rightarrow>
     (case remove_trimmed ss w1 of (Inl e, w2) \<Rightarrow> (Inl e, w2)
      | (Inr saved_pairs, w2) \<Rightarrow> (Inr ((s, v) # saved_pairs), w2))))"

type_synonym best = "(string \<times> string) list option \<times> int list option"

text \<open>\<^verbatim>\<open>if best_score is None or new_score > best_score\<close>: tuples compare lexicographically,
  and comparing \<^verbatim>\<open>None\<close> with a tuple raises TypeError.\<close>

definition keep_best :: "best \<Rightarrow> best \<Rightarrow> error + best" where
  "keep_best new old =
     (case snd old of None \<Rightarrow> Inr new
      | Some best_score \<Rightarrow>
          (case snd new of None \<Rightarrow> Inl TypeError
           | Some new_score \<Rightarrow> Inr (if new_score > best_score then new else old)))"

text \<open>The loop \<^verbatim>\<open>for trim in trim_product\<close>; \<open>recurse\<close> is the call of the next stage.\<close>

fun trim_loop ::
  "(world \<Rightarrow> best outcome) \<Rightarrow> string list list list \<Rightarrow> best \<Rightarrow> world \<Rightarrow> best outcome" where
  "trim_loop recurse [] best w = (Inr best, w)"
| "trim_loop recurse (trim # trims) best w =
     (case remove_trimmed (concat trim) w of (Inl e, w1) \<Rightarrow> (Inl e, w1)
      | (Inr saved_pairs, w1) \<Rightarrow>
     (case lock_all_matched w1 of (Inl e, w2) \<Rightarrow> (Inl e, w2)
      | (Inr locked_students, w2) \<Rightarrow>
     (case recurse w2 of (Inl e, w3) \<Rightarrow> (Inl e, w3)
      | (Inr new, w3) \<Rightarrow>
     (case unlock_many locked_students w3 of (Inl e, w4) \<Rightarrow> (Inl e, w4)
      | (Inr u, w4) \<Rightarrow>
     (case keep_best new best of Inl e \<Rightarrow> (Inl e, w4)
      | Inr best' \<Rightarrow>
     (case assign_pairs saved_pairs w4 of (Inl e, w5) \<Rightarrow> (Inl e, w5)
      | (Inr u, w5) \<Rightarrow> trim_loop recurse trims best' w5))))))"

lemma trim_loop_cong [fundef_cong]:
  "(\<And>v. recurse v = recurse' v) \<Longrightarrow> trims = trims' \<Longrightarrow> best = best' \<Longrightarrow> w = w'
   \<Longrightarrow> trim_loop recurse trims best w = trim_loop recurse' trims' best' w'"
  by (subgoal_tac "recurse = recurse'") auto

text \<open>
  When no option is overfilled the code builds its single empty trim by
  \<^verbatim>\<open>it.repeat(tuple(), n=1)\<close>. \<^verbatim>\<open>itertools.repeat\<close> takes \<^verbatim>\<open>object\<close> and \<^verbatim>\<open>times\<close>; \<^verbatim>\<open>n\<close> is not a
  keyword argument of it, and the call raises TypeError.
\<close>

function recursive_assignment_algorithm ::
  "student list \<Rightarrow> string list \<Rightarrow> nat \<Rightarrow> nat \<Rightarrow> nat \<Rightarrow> nat \<Rightarrow> world \<Rightarrow> best outcome" where
  "recursive_assignment_algorithm students options n_choices min_per_option max_per_option stage w =
     (if stage > n_choices
      then (case assignment_algorithm_base_case students options n_choices
                   min_per_option max_per_option w of
              (Inl e, w1) \<Rightarrow> (Inl e, w1)
            | (Inr (pairs, score), w1) \<Rightarrow> (Inr (Some pairs, Some score), w1))
      else
     (case assign_stage students stage w of (Inl e, w1) \<Rightarrow> (Inl e, w1)
      | (Inr assigned_students, w1) \<Rightarrow>
     (case make_trim_iterables (match w1)
             (list_overfilled_options (match w1) max_per_option) max_per_option of
        Inl e \<Rightarrow> (Inl e, w1)
      | Inr trim_iterables \<Rightarrow>
          if \<not> length trim_iterables > 0 then (Inl TypeError, w1)
          else
     (case trim_loop
             (recursive_assignment_algorithm students options n_choices
                min_per_option max_per_option (stage + 1))
             (product_lists trim_iterables) (None, None) w1 of
        (Inl e, w2) \<Rightarrow> (Inl e, w2)
      | (Inr best, w2) \<Rightarrow>
     (case erase_many assigned_students w2 of (Inl e, w3) \<Rightarrow> (Inl e, w3)
      | (Inr u, w3) \<Rightarrow> (Inr best, w3))))))"
  by pat_completeness auto
termination
  by (relation "measure (\<lambda>(students, options, n_choices, mn, mx, stage, w). Suc n_choices - stage)") auto

declare recursive_assignment_algorithm.simps [simp del]

text \<open>The world in which \<^verbatim>\<open>main\<close> starts the search: a fresh \<^verbatim>\<open>Matching\<close>, and any random
  source.\<close>

definition initial_world :: "matching \<Rightarrow> (nat \<Rightarrow> nat) \<Rightarrow> world" where
  "initial_world m rnd = \<lparr>match = m, draws = rnd, cursor = 0, history = [], explored = []\<rparr>"

section \<open>Invariants of the matching\<close>

text \<open>
  The invariant of the data model: for every student \<open>s\<close> (a key of \<open>by_student\<close>, with value
  \<open>v\<close>) and every option (a key of \<open>by_option\<close>, with set \<open>xs\<close>), \<open>s\<close> lies in at most one
  option's set, and \<open>by_student[s]\<close> is the option exactly when \<open>s\<close> is in the option's set.
\<close>

definition dicts_inv :: "(string \<times> string option) list \<Rightarrow> (string \<times> string list) list \<Rightarrow> bool" where
  "dicts_inv bs bo \<longleftrightarrow>
     (\<forall>s v o1 xs1 o2 xs2.
        map_of bs s = Some v \<and> map_of bo o1 = Some xs1 \<and> map_of bo o2 = Some xs2 \<and>
        s \<in> set xs1 \<and> s \<in> set xs2 \<longrightarrow> o1 = o2) \<and>
     (\<forall>s v opt xs.
        map_of bs s = Some v \<and> map_of bo opt = Some xs \<longrightarrow> (v = Some opt) = (s \<in> set xs))"

definition matching_inv :: "matching \<Rightarrow> bool" where
  "matching_inv m = dicts_inv (by_student m) (by_option m)"

definition au_matching_inv :: "au_matching \<Rightarrow> bool" where
  "au_matching_inv m = dicts_inv (au_by_student m) (au_by_option m)"

section \<open>The score as the specification defines it\<close>

text \<open>
  The reference definition, from the words of the specification (sections 3 and 4.3):
  the score is \<open>[happy_count, count_choice_1 .. count_choice_K, hp_count_choice_1 ..
  hp_count_choice_K]\<close>. For each student the rank is the first \<open>i\<close> (1-based) at which the
  assigned option equals \<open>choice[i]\<close>; a student with a rank counts in \<open>happy_count\<close> and in
  \<open>count_choice_i\<close>, and in \<open>hp_count_choice_i\<close> when priority-flagged; a student without a
  rank counts nowhere. \<open>assignment\<close> maps a student's name to the assigned option, if any.
\<close>

definition spec_rank :: "student \<Rightarrow> nat \<Rightarrow> string option \<Rightarrow> nat option" where
  "spec_rank st K assigned = List.find (\<lambda>i. assigned = Some (choices st ! (i - 1))) [1..<K + 1]"

definition spec_score :: "(string \<Rightarrow> string option) \<Rightarrow> student list \<Rightarrow> nat \<Rightarrow> int list" where
  "spec_score assignment students K =
     int (length (filter (\<lambda>st. spec_rank st K (assignment (name st)) \<noteq> None) students)) #
     map (\<lambda>i. int (length (filter (\<lambda>st. spec_rank st K (assignment (name st)) = Some i) students)))
         [1..<K + 1] @
     map (\<lambda>i. int (length (filter (\<lambda>st. high_priority st \<and>
                                          spec_rank st K (assignment (name st)) = Some i) students)))
         [1..<K + 1]"

text \<open>The assignment a matching holds: the value of \<open>by_student\<close>, \<open>None\<close> for a name that is
  no key.\<close>

definition assigned_of :: "(string \<times> string option) list \<Rightarrow> string \<Rightarrow> string option" where
  "assigned_of bs s = (case map_of bs s of None \<Rightarrow> None | Some v \<Rightarrow> v)"

text \<open>Whether a student with priority flag \<open>hp\<close> and rank \<open>r\<close> counts in position \<open>k\<close> of a
  score for \<open>K\<close> ranks.\<close>

definition counts_in :: "nat \<Rightarrow> bool \<Rightarrow> nat option \<Rightarrow> nat \<Rightarrow> bool" where
  "counts_in K hp r k =
     (if k = 0 then r \<noteq> None else if k \<le> K then r = Some k else hp \<and> r = Some (k - K))"

section \<open>Well-formed matchings and what a call leaves unchanged\<close>

text \<open>
  A matching is well formed when its dicts have distinct keys, the lock dict has the keys
  of \<open>by_student\<close>, every set of \<open>by_option\<close> is a list without duplicates that holds
  exactly the students matched to that option, and every student is matched to a key of
  \<open>by_option\<close> or to nothing. The matching that \<^verbatim>\<open>Matching.__init__\<close> builds is well formed,
  and the four writing methods keep it so.
\<close>

definition well_formed :: "matching \<Rightarrow> bool" where
  "well_formed m \<longleftrightarrow>
     distinct (map fst (by_student m)) \<and>
     distinct (map fst (by_option m)) \<and>
     map fst (student_locked m) = map fst (by_student m) \<and>
     (\<forall>opt xs. map_of (by_option m) opt = Some xs \<longrightarrow>
        distinct xs \<and> set xs = {s. map_of (by_student m) s = Some (Some opt)}) \<and>
     (\<forall>s opt. map_of (by_student m) s = Some (Some opt) \<longrightarrow> opt \<in> fst ` set (by_option m))"

text \<open>Two values of the \<^verbatim>\<open>Matching\<close> object are the same when the three dicts are: the same
  students with the same options, the same lock flags, the same options in the same
  order, each with the same set of students.\<close>

definition same_matching :: "matching \<Rightarrow> matching \<Rightarrow> bool" where
  "same_matching m m' \<longleftrightarrow>
     by_student m' = by_student m \<and>
     student_locked m' = student_locked m \<and>
     map fst (by_option m') = map fst (by_option m) \<and>
     (\<forall>opt. map_option set (map_of (by_option m') opt) = map_option set (map_of (by_option m) opt))"

text \<open>The lock invariant: a locked student is matched.\<close>

definition lock_ok :: "matching \<Rightarrow> bool" where
  "lock_ok m \<longleftrightarrow>
     (\<forall>s. map_of (student_locked m) s = Some True \<longrightarrow>
          (\<exists>opt. map_of (by_student m) s = Some (Some opt)))"

text \<open>No option holds more than \<open>max_per_option\<close> students.\<close>

definition cap_ok :: "nat \<Rightarrow> matching \<Rightarrow> bool" where
  "cap_ok max_per_option m \<longleftrightarrow>
     (\<forall>opt xs. map_of (by_option m) opt = Some xs \<longrightarrow> length xs \<le> max_per_option)"

definition evolves :: "matching \<Rightarrow> matching \<Rightarrow> bool" where
  "evolves m m' \<longleftrightarrow>
     (well_formed m \<longrightarrow> well_formed m') \<and>
     map fst (by_student m') = map fst (by_student m) \<and>
     map fst (by_option m') = map fst (by_option m) \<and>
     map fst (student_locked m') = map fst (student_locked m)"

definition rest_same :: "world \<Rightarrow> world \<Rightarrow> bool" where
  "rest_same w w' \<longleftrightarrow> draws w' = draws w \<and> explored w' = explored w"

definition restored :: "world \<Rightarrow> world \<Rightarrow> bool" where
  "restored w w' \<longleftrightarrow>
     well_formed (match w') \<and>
     by_student (match w') = by_student (match w) \<and>
     student_locked (match w') = student_locked (match w) \<and>
     map fst (by_option (match w')) = map fst (by_option (match w))"

definition example_students :: "student list" where
  "example_students = [\<lparr>name = ''a'', high_priority = False, choices = [''X'']\<rparr>,
                     \<lparr>name = ''b'', high_priority = True, choices = [''X'']\<rparr>,
                     \<lparr>name = ''c'', high_priority = False, choices = [''X'']\<rparr>]"
definition example_matching :: matching where
  "example_matching = \<lparr>by_student = [(''a'', None), (''b'', None), (''c'', None)],
             by_option = [(''X'', []), (''Y'', [])],
             student_locked = [(''a'', False), (''b'', False), (''c'', False)]\<rparr>"

section \<open>The driver of AssignStudents.py\<close>

text \<open>
  The old script sets \<^verbatim>\<open>n_unhappy_students = 1  # calculate minimum limit\<close> and then loops:
  one round runs over \<^verbatim>\<open>match_iter.all_permitted_matchings(n_unhappy_students)\<close> and keeps
  the best matchings; when the round has found none, \<^verbatim>\<open>n_unhappy_students += 1\<close> and the
  next round starts, otherwise the loop ends. \<open>round\<close> stands for one round: it raises,
  finds nothing, or finds a best result. The \<^verbatim>\<open>while True\<close> loop need not end, so the model
  counts rounds down from \<open>fuel\<close>, and \<open>None\<close> says that the fuel ran out.
\<close>

definition initial_n_unhappy_students :: nat where
  "initial_n_unhappy_students = 1"

fun widening_loop ::
  "(nat \<Rightarrow> error + 'b option) \<Rightarrow> nat \<Rightarrow> nat \<Rightarrow> (error + nat \<times> 'b) option" where
  "widening_loop round 0 n_unhappy_students = None"
| "widening_loop round (Suc fuel) n_unhappy_students =
     (case round n_unhappy_students of Inl e \<Rightarrow> Some (Inl e)
      | Inr None \<Rightarrow> widening_loop round fuel (n_unhappy_students + 1)
      | Inr (Some best) \<Rightarrow> Some (Inr (n_unhappy_students, best)))"

definition old_driver :: "(nat \<Rightarrow> error + 'b option) \<Rightarrow> nat \<Rightarrow> (error + nat \<times> 'b) option" where
  "old_driver round fuel = widening_loop round fuel initial_n_unhappy_students"

text \<open>The number of options that no student lists among the choices, as the
  specification (section 4.6) and the script's header comment describe the starting
  value. \<open>chs\<close> is the \<^verbatim>\<open>choices\<close> dict of the script.\<close>

definition zero_vote_options :: "string list \<Rightarrow> (string \<times> string list) list \<Rightarrow> nat" where
  "zero_vote_options options chs =
     length (filter (\<lambda>opt. list_all (\<lambda>(nm, picks). opt \<notin> set picks) chs) options)"

section \<open>Example inputs\<close>

text \<open>Twelve options and twelve students with three choices each (the old script's
  constants), every option chosen by someone.\<close>

definition twelve_options :: "string list" where
  "twelve_options = [''o01'', ''o02'', ''o03'', ''o04'', ''o05'', ''o06'',
                     ''o07'', ''o08'', ''o09'', ''o10'', ''o11'', ''o12'']"

definition twelve_choices :: "(string \<times> string list) list" where
  "twelve_choices =
     [(''s01'', [''o01'', ''o02'', ''o03'']), (''s02'', [''o02'', ''o03'', ''o04'']),
      (''s03'', [''o03'', ''o04'', ''o05'']), (''s04'', [''o04'', ''o05'', ''o06'']),
      (''s05'', [''o05'', ''o06'', ''o07'']), (''s06'', [''o06'', ''o07'', ''o08'']),
      (''s07'', [''o07'', ''o08'', ''o09'']), (''s08'', [''o08'', ''o09'', ''o10'']),
      (''s09'', [''o09'', ''o10'', ''o11'']), (''s10'', [''o10'', ''o11'', ''o12'']),
      (''s11'', [''o11'', ''o12'', ''o01'']), (''s12'', [''o12'', ''o01'', ''o02''])]"

text \<open>Four options and five students with one choice each: three choose W, two choose X,
  nobody chooses Y or Z. With \<open>min_per_option = 1\<close> and \<open>max_per_option = 2\<close> (the floor and
  the ceiling of 5/4, as \<^verbatim>\<open>main\<close> computes them) one student is trimmed from W and two
  options stay empty, so the base case asks the resolver for one more unhappy student.\<close>

definition five_students :: "student list" where
  "five_students =
     [\<lparr>name = ''a'', high_priority = False, choices = [''W'']\<rparr>,
      \<lparr>name = ''b'', high_priority = True, choices = [''W'']\<rparr>,
      \<lparr>name = ''c'', high_priority = False, choices = [''W'']\<rparr>,
      \<lparr>name = ''d'', high_priority = False, choices = [''X'']\<rparr>,
      \<lparr>name = ''e'', high_priority = False, choices = [''X'']\<rparr>]"

definition five_matching :: matching where
  "five_matching =
     \<lparr>by_student = [(''a'', None), (''b'', None), (''c'', None), (''d'', None), (''e'', None)],
      by_option = [(''W'', []), (''X'', []), (''Y'', []), (''Z'', [])],
      student_locked = [(''a'', False), (''b'', False), (''c'', False), (''d'', False), (''e'', False)]\<rparr>"

section \<open>What the search records\<close>

text \<open>The record \<open>history\<close> is in order when the lock invariant holds in the current matching
  and in every matching written so far.\<close>

definition hist_ok :: "world \<Rightarrow> bool" where
  "hist_ok w \<longleftrightarrow> lock_ok (match w) \<and> (\<forall>m \<in> set (history w). lock_ok m)"

text \<open>
  What a returning call adds to the record \<open>explored\<close>: \<open>new\<close> lists the pair lists and
  scores that the base case returned during the call. The call's result \<open>r\<close> dominates
  \<open>new\<close> when every recorded score is at most the returned score, and the result is
  either \<open>(None, None)\<close> or one of the recorded entries.
\<close>

definition dominates :: "best \<Rightarrow> ((string \<times> string) list \<times> int list) list \<Rightarrow> bool" where
  "dominates r new \<longleftrightarrow>
     list_all (\<lambda>(pairs, score). case snd r of None \<Rightarrow> False | Some b \<Rightarrow> score \<le> b) new \<and>
     (r = (None, None) \<or> (case r of (Some pairs, Some b) \<Rightarrow> (pairs, b) \<in> set new | _ \<Rightarrow> False))"

definition explores :: "world \<Rightarrow> best \<Rightarrow> world \<Rightarrow> bool" where
  "explores w r w' \<longleftrightarrow>
     (\<exists>new. explored w' = new @ explored w \<and> dominates r new)"

text \<open>The number of students matched to an option, read from \<open>by_student\<close>.\<close>

definition occupancy :: "matching \<Rightarrow> string \<Rightarrow> nat" where
  "occupancy m opt = card {s. map_of (by_student m) s = Some (Some opt)}"

text \<open>A pair list is good for the students \<open>ks\<close> and the options \<open>ko\<close> when it names the
  students of \<open>ks\<close>, each once and in that order, and every option of \<open>ko\<close> is named by at
  least \<open>mn\<close> and at most \<open>mx\<close> pairs.\<close>

definition good_pairs ::
  "string list \<Rightarrow> string list \<Rightarrow> nat \<Rightarrow> nat \<Rightarrow> (string \<times> string) list \<Rightarrow> bool" where
  "good_pairs ks ko mn mx pairs \<longleftrightarrow>
     map fst pairs = ks \<and>
     list_all (\<lambda>opt. mn \<le> count_list (map snd pairs) opt \<and> count_list (map snd pairs) opt \<le> mx) ko"

section \<open>Properties of the Matching operations\<close>

lemma dicts_inv_iff:
  "dicts_inv bs bo \<longleftrightarrow>
     (\<forall>s v opt xs. map_of bs s = Some v \<longrightarrow> map_of bo opt = Some xs \<longrightarrow> (v = Some opt) = (s \<in> set xs))"
proof
  assume "dicts_inv bs bo"
  then show "\<forall>s v opt xs. map_of bs s = Some v \<longrightarrow> map_of bo opt = Some xs \<longrightarrow> (v = Some opt) = (s \<in> set xs)"
    unfolding dicts_inv_def by blast
next
  assume r: "\<forall>s v opt xs. map_of bs s = Some v \<longrightarrow> map_of bo opt = Some xs \<longrightarrow> (v = Some opt) = (s \<in> set xs)"
  have "o1 = o2"
    if "map_of bs s = Some v" "map_of bo o1 = Some xs1" "map_of bo o2 = Some xs2"
       "s \<in> set xs1" "s \<in> set xs2" for s v o1 xs1 o2 xs2
  proof -
    from r that have "v = Some o1" by blast
    moreover from r that have "v = Some o2" by blast
    ultimately show ?thesis by simp
  qed
  with r show "dicts_inv bs bo" unfolding dicts_inv_def by blast
qed

lemma dicts_invD:
  "dicts_inv bs bo \<Longrightarrow> map_of bs s = Some v \<Longrightarrow> map_of bo opt = Some xs \<Longrightarrow> (v = Some opt) = (s \<in> set xs)"
  unfolding dicts_inv_iff by blast

lemma dicts_inv_add:
  assumes inv: "dicts_inv bs bo" and s: "map_of bs s = Some None" and o: "map_of bo opt = Some xs"
  shows "dicts_inv (AList.update s (Some opt) bs) (AList.update opt (set_add s xs) bo)"
  unfolding dicts_inv_iff
proof (intro allI impI)
  fix t v opt' xs'
  assume a: "map_of (AList.update s (Some opt) bs) t = Some v"
     and b: "map_of (AList.update opt (set_add s xs) bo) opt' = Some xs'"
  show "(v = Some opt') = (t \<in> set xs')"
  proof (cases "t = s")
    case True
    show ?thesis
    proof (cases "opt' = opt")
      case True
      with a b \<open>t = s\<close> show ?thesis by (auto simp: update_conv' set_add_def)
    next
      case False
      with b have "map_of bo opt' = Some xs'" by (simp add: update_conv')
      from dicts_invD[OF inv s this] a \<open>t = s\<close> False show ?thesis by (auto simp: update_conv')
    qed
  next
    case False
    with a have t: "map_of bs t = Some v" by (simp add: update_conv')
    show ?thesis
    proof (cases "opt' = opt")
      case True
      with b have "xs' = set_add s xs" by (simp add: update_conv')
      with dicts_invD[OF inv t o] False True show ?thesis by (auto simp: set_add_def)
    next
      case False
      with b have "map_of bo opt' = Some xs'" by (simp add: update_conv')
      from dicts_invD[OF inv t this] show ?thesis .
    qed
  qed
qed

lemma dicts_inv_remove:
  assumes inv: "dicts_inv bs bo" and s: "map_of bs s = Some (Some opt)" and o: "map_of bo opt = Some xs"
  shows "dicts_inv (AList.update s None bs) (AList.update opt (removeAll s xs) bo)"
  unfolding dicts_inv_iff
proof (intro allI impI)
  fix t v opt' xs'
  assume a: "map_of (AList.update s None bs) t = Some v"
     and b: "map_of (AList.update opt (removeAll s xs) bo) opt' = Some xs'"
  show "(v = Some opt') = (t \<in> set xs')"
  proof (cases "t = s")
    case True
    show ?thesis
    proof (cases "opt' = opt")
      case True
      with a b \<open>t = s\<close> show ?thesis by (auto simp: update_conv')
    next
      case False
      with b have "map_of bo opt' = Some xs'" by (simp add: update_conv')
      from dicts_invD[OF inv s this] a \<open>t = s\<close> False show ?thesis by (auto simp: update_conv')
    qed
  next
    case False
    with a have t: "map_of bs t = Some v" by (simp add: update_conv')
    show ?thesis
    proof (cases "opt' = opt")
      case True
      with b have "xs' = removeAll s xs" by (simp add: update_conv')
      with dicts_invD[OF inv t o] False True show ?thesis by auto
    next
      case False
      with b have "map_of bo opt' = Some xs'" by (simp add: update_conv')
      from dicts_invD[OF inv t this] show ?thesis .
    qed
  qed
qed

lemma assign_inv: "matching_inv m \<Longrightarrow> assign m s v = Inr m' \<Longrightarrow> matching_inv m'"
  unfolding matching_inv_def assign_def is_matched_def is_locked_def
  by (auto split: option.splits sum.splits bool.splits if_splits intro: dicts_inv_add)

lemma erase_inv: "matching_inv m \<Longrightarrow> erase m s = Inr m' \<Longrightarrow> matching_inv m'"
  unfolding matching_inv_def erase_def is_matched_def is_locked_def set_remove_def
  by (auto split: option.splits sum.splits bool.splits if_splits intro: dicts_inv_remove)

lemma add_pair_inv: "au_matching_inv m \<Longrightarrow> add_pair m u v = Inr m' \<Longrightarrow> au_matching_inv m'"
  unfolding au_matching_inv_def add_pair_def
  by (auto split: option.splits sum.splits prod.splits if_splits intro: dicts_inv_add)

lemma delete_pair_inv: "au_matching_inv m \<Longrightarrow> delete_pair m u v = Inr m' \<Longrightarrow> au_matching_inv m'"
  unfolding au_matching_inv_def delete_pair_def set_remove_def
  by (auto split: option.splits sum.splits prod.splits if_splits intro: dicts_inv_remove)

text \<open>
  Claim C4. Each of \<^verbatim>\<open>assign\<close> and \<^verbatim>\<open>erase\<close> (new script) and \<^verbatim>\<open>add_pair\<close> and \<^verbatim>\<open>delete_pair\<close>
  (old script) keeps the invariant: started in a matching where every student is in at
  most one option's set and \<open>by_student[s] == o\<close> holds iff \<open>s\<close> is in \<open>by_option[o]\<close>, a call
  that returns leaves a matching with the same property. (A call that raises leaves the
  matching as it was.)
\<close>

theorem matching_operations_preserve_invariant:
  "(matching_inv m \<and> assign m s v = Inr m1 \<longrightarrow> matching_inv m1) \<and>
   (matching_inv m \<and> erase m s = Inr m2 \<longrightarrow> matching_inv m2) \<and>
   (au_matching_inv am \<and> add_pair am x y = Inr am1 \<longrightarrow> au_matching_inv am1) \<and>
   (au_matching_inv am \<and> delete_pair am x y = Inr am2 \<longrightarrow> au_matching_inv am2)"
  using assign_inv erase_inv add_pair_inv delete_pair_inv by blast

theorem matching_operations_preserve_invariant_witness:
  "matching_inv \<lparr>by_student = [(''a'', None)], by_option = [(''X'', [])],
                  student_locked = [(''a'', False)]\<rparr> \<and>
   assign \<lparr>by_student = [(''a'', None)], by_option = [(''X'', [])],
           student_locked = [(''a'', False)]\<rparr> ''a'' (Some ''X'')
     = Inr \<lparr>by_student = [(''a'', Some ''X'')], by_option = [(''X'', [''a''])],
            student_locked = [(''a'', False)]\<rparr> \<and>
   matching_inv \<lparr>by_student = [(''a'', Some ''X'')], by_option = [(''X'', [''a''])],
                  student_locked = [(''a'', False)]\<rparr> \<and>
   erase \<lparr>by_student = [(''a'', Some ''X'')], by_option = [(''X'', [''a''])],
          student_locked = [(''a'', False)]\<rparr> ''a''
     = Inr \<lparr>by_student = [(''a'', None)], by_option = [(''X'', [])],
            student_locked = [(''a'', False)]\<rparr> \<and>
   au_matching_inv \<lparr>au_by_option = [(''X'', [])], au_by_student = [(''a'', None)]\<rparr> \<and>
   add_pair \<lparr>au_by_option = [(''X'', [])], au_by_student = [(''a'', None)]\<rparr> ''a'' ''X''
     = Inr \<lparr>au_by_option = [(''X'', [''a''])], au_by_student = [(''a'', Some ''X'')]\<rparr> \<and>
   au_matching_inv \<lparr>au_by_option = [(''X'', [''a''])], au_by_student = [(''a'', Some ''X'')]\<rparr> \<and>
   delete_pair \<lparr>au_by_option = [(''X'', [''a''])], au_by_student = [(''a'', Some ''X'')]\<rparr> ''X'' ''a''
     = Inr \<lparr>au_by_option = [(''X'', [])], au_by_student = [(''a'', None)]\<rparr>"
proof -
  let ?m0 = "\<lparr>by_student = [(''a'', None)], by_option = [(''X'', [])],
              student_locked = [(''a'', False)]\<rparr>"
  let ?m1 = "\<lparr>by_student = [(''a'', Some ''X'')], by_option = [(''X'', [''a''])],
              student_locked = [(''a'', False)]\<rparr>"
  let ?a0 = "\<lparr>au_by_option = [(''X'', [])], au_by_student = [(''a'', None)]\<rparr>"
  let ?a1 = "\<lparr>au_by_option = [(''X'', [''a''])], au_by_student = [(''a'', Some ''X'')]\<rparr>"
  have i0: "matching_inv ?m0" by (simp add: matching_inv_def dicts_inv_def)
  have s1: "assign ?m0 ''a'' (Some ''X'') = Inr ?m1"
    by (simp add: assign_def is_matched_def is_locked_def set_add_def)
  have s2: "erase ?m1 ''a'' = Inr ?m0"
    by (simp add: erase_def is_matched_def is_locked_def set_remove_def)
  have j0: "au_matching_inv ?a0" by (simp add: au_matching_inv_def dicts_inv_def)
  have t1: "add_pair ?a0 ''a'' ''X'' = Inr ?a1"
    by (simp add: add_pair_def which_way_def set_add_def)
  have t2: "delete_pair ?a1 ''X'' ''a'' = Inr ?a0"
    by (simp add: delete_pair_def which_way_def set_remove_def)
  from matching_operations_preserve_invariant[of ?m0 "''a''" "Some ''X''" ?m1 ?m0 ?a0 "''a''" "''X''" ?a1 ?a0]
    i0 s1 j0 t1
  have "matching_inv ?m1" and "au_matching_inv ?a1" by simp_all
  with i0 s1 s2 j0 t1 t2 show ?thesis by simp
qed

lemma count_underfilled_aux:
  "distinct (map fst bo) \<Longrightarrow>
   count (mset (concat (map (\<lambda>(opt, xs). if length xs < t then replicate (t - length xs) opt else []) bo))) opt =
     (case map_of bo opt of None \<Rightarrow> 0 | Some xs \<Rightarrow> t - length xs)"
proof (induction bo)
  case Nil
  then show ?case by simp
next
  case (Cons p bo)
  obtain k ys where p: "p = (k, ys)" by (cases p)
  from Cons.prems p have k: "map_of bo k = None" by (simp add: map_of_eq_None_iff)
  from Cons.prems have "distinct (map fst bo)" by simp
  from Cons.IH[OF this] k show ?case by (auto simp: p)
qed

lemma list_underfilled_options_count:
  "distinct (map fst (by_option m)) \<Longrightarrow>
   count (mset (list_underfilled_options m t)) opt =
     (case map_of (by_option m) opt of None \<Rightarrow> 0 | Some xs \<Rightarrow> t - length xs)"
  unfolding list_underfilled_options_def by (rule count_underfilled_aux)

lemma underfilled_count_aux:
  "distinct (map fst bo) \<Longrightarrow>
   count (mset (map fst (filter (\<lambda>(x, y). length y < limit) bo))) opt =
     (case map_of bo opt of None \<Rightarrow> 0 | Some ys \<Rightarrow> if length ys < limit then 1 else 0)"
proof (induction bo)
  case Nil
  then show ?case by simp
next
  case (Cons p bo)
  obtain k ys where p: "p = (k, ys)" by (cases p)
  from Cons.prems p have k: "map_of bo k = None" by (simp add: map_of_eq_None_iff)
  from Cons.prems have "distinct (map fst bo)" by simp
  from Cons.IH[OF this] k show ?case by (auto simp: p)
qed

text \<open>
  Claim C7, as amended. The dicts have distinct keys, and the number of students of an
  option is the length of its list. In the new script, \<^verbatim>\<open>list_underfilled_options\<close> lists
  every option with fewer than \<open>min_per_option\<close> students exactly \<open>min_per_option - count\<close>
  times and no other option. In the old script, \<^verbatim>\<open>underfilled\<close> returns a set: every option
  with fewer than \<open>limit\<close> students is in it exactly once, whatever its deficit, and no
  other option is in it.
\<close>

theorem underfilled_queries:
  "(distinct (map fst (by_option m)) \<longrightarrow>
      (\<forall>opt xs. map_of (by_option m) opt = Some xs \<longrightarrow>
         (length xs < min_per_option \<longrightarrow>
            count (mset (list_underfilled_options m min_per_option)) opt = min_per_option - length xs) \<and>
         (min_per_option \<le> length xs \<longrightarrow> opt \<notin> set (list_underfilled_options m min_per_option)))) \<and>
   (distinct (map fst (au_by_option am)) \<longrightarrow>
      (\<forall>opt ys. map_of (au_by_option am) opt = Some ys \<longrightarrow>
         (length ys < limit \<longrightarrow> count (mset (underfilled am limit)) opt = 1) \<and>
         (limit \<le> length ys \<longrightarrow> opt \<notin> set (underfilled am limit))))"
proof (intro conjI impI allI)
  fix opt xs
  assume d: "distinct (map fst (by_option m))" and o: "map_of (by_option m) opt = Some xs"
  from list_underfilled_options_count[OF d, of min_per_option opt] o
  have c: "count (mset (list_underfilled_options m min_per_option)) opt = min_per_option - length xs"
    by simp
  then show "count (mset (list_underfilled_options m min_per_option)) opt = min_per_option - length xs" .
  show "opt \<notin> set (list_underfilled_options m min_per_option)" if "min_per_option \<le> length xs"
    using c that by (simp add: count_mset_0_iff[symmetric] del: count_mset_0_iff)
next
  fix opt ys
  assume d: "distinct (map fst (au_by_option am))" and o: "map_of (au_by_option am) opt = Some ys"
  from underfilled_count_aux[OF d, of limit opt] o
  have c: "count (mset (underfilled am limit)) opt = (if length ys < limit then 1 else 0)"
    by (simp add: underfilled_def)
  show "count (mset (underfilled am limit)) opt = 1" if "length ys < limit"
    using c that by simp
  show "opt \<notin> set (underfilled am limit)" if "limit \<le> length ys"
    using c that by (simp add: count_mset_0_iff[symmetric] del: count_mset_0_iff)
qed

theorem underfilled_queries_witness:
  "distinct (map fst (by_option \<lparr>by_student = [], by_option = [(''X'', []), (''Y'', [''a''])], student_locked = []\<rparr>)) \<and>
   count (mset (list_underfilled_options
       \<lparr>by_student = [], by_option = [(''X'', []), (''Y'', [''a''])], student_locked = []\<rparr> 2)) ''X'' = 2 \<and>
   ''Y'' \<notin> set (list_underfilled_options
       \<lparr>by_student = [], by_option = [(''X'', []), (''Y'', [''a''])], student_locked = []\<rparr> 1) \<and>
   distinct (map fst (au_by_option \<lparr>au_by_option = [(''X'', []), (''Y'', [''a''])], au_by_student = []\<rparr>)) \<and>
   count (mset (underfilled \<lparr>au_by_option = [(''X'', []), (''Y'', [''a''])], au_by_student = []\<rparr> 1)) ''X'' = 1 \<and>
   ''Y'' \<notin> set (underfilled \<lparr>au_by_option = [(''X'', []), (''Y'', [''a''])], au_by_student = []\<rparr> 1)"
  using underfilled_queries[of "\<lparr>by_student = [], by_option = [(''X'', []), (''Y'', [''a''])], student_locked = []\<rparr>" 2
          "\<lparr>au_by_option = [(''X'', []), (''Y'', [''a''])], au_by_student = []\<rparr>" 1]
        underfilled_queries[of "\<lparr>by_student = [], by_option = [(''X'', []), (''Y'', [''a''])], student_locked = []\<rparr>" 1
          "\<lparr>au_by_option = [(''X'', []), (''Y'', [''a''])], au_by_student = []\<rparr>" 1]
  by simp

text \<open>
  The claim as stated fails for the old query: with \<open>limit = 2\<close>, an option without
  students is in the result once, not \<open>2 - 0\<close> times.
\<close>

theorem underfilled_old_counterexample:
  "map_of (au_by_option (au_Matching_init [''X''] [])) ''X'' = Some [] \<and>
   length ([] :: string list) < 2 \<and>
   count (mset (underfilled (au_Matching_init [''X''] []) 2)) ''X'' \<noteq> 2 - length ([] :: string list)"
  by (simp add: au_Matching_init_def underfilled_def)

section \<open>Properties of the scorers\<close>

lemma in_keys_iff: "k \<in> fst ` set al \<longleftrightarrow> map_of al k \<noteq> None"
  by (simp add: map_of_eq_None_iff)

lemma spec_score_length: "length (spec_score asg sts K) = 1 + 2 * K"
  by (simp add: spec_score_def)

lemma spec_rank_range: "spec_rank st K v = Some i \<Longrightarrow> 1 \<le> i \<and> i \<le> K"
  unfolding spec_rank_def by (auto simp: find_Some_iff simp del: upt_Suc)

lemma spec_score_nth:
  assumes "k < 1 + 2 * K"
  shows "spec_score asg sts K ! k =
     int (length (filter (\<lambda>st. counts_in K (high_priority st) (spec_rank st K (asg (name st))) k) sts))"
proof -
  consider "k = 0" | "1 \<le> k" "k \<le> K" | "K < k" using assms by linarith
  then show ?thesis
  proof cases
    case 1
    then show ?thesis by (simp add: spec_score_def counts_in_def)
  next
    case 2
    then obtain j where j: "k = Suc j" "j < K" by (cases k) auto
    then show ?thesis
      by (simp add: spec_score_def counts_in_def nth_append del: upt_Suc)
  next
    case 3
    then obtain j where j: "k = Suc (K + j)" "j < K" using assms
      by (metis Suc_leI add_Suc_right le_Suc_ex less_Suc_eq_le mult_2 nat_add_left_cancel_less plus_1_eq_Suc add.commute)
    then show ?thesis
      by (simp add: spec_score_def counts_in_def nth_append del: upt_Suc)
  qed
qed

lemma find_rank_find:
  "\<forall>i \<in> set ranks. 1 \<le> i \<and> i \<le> length (choices st) \<Longrightarrow>
   find_rank st v ranks = Inr (List.find (\<lambda>i. v = Some (choices st ! (i - 1))) ranks)"
  by (induction ranks) (auto simp: get_choice_def)

lemma find_rank_spec:
  "K \<le> length (choices st) \<Longrightarrow> find_rank st v [Suc 0..<Suc K] = Inr (spec_rank st K v)"
  using find_rank_find[of "[Suc 0..<Suc K]" st v] unfolding spec_rank_def by (simp del: upt_Suc)

lemma get_match_assigned_of:
  "s \<in> fst ` set (by_student m) \<Longrightarrow> get_match m s = Inr (assigned_of (by_student m) s)"
  unfolding get_match_def assigned_of_def
  by (auto simp: map_of_eq_None_iff split: option.splits)

lemma score_loop_nth:
  assumes "\<forall>st \<in> set sts. name st \<in> fst ` set (by_student m)"
      and "\<forall>st \<in> set sts. K \<le> length (choices st)"
      and "length acc = 1 + 2 * K"
  shows "\<exists>r. score_loop m sts K acc = Inr r \<and> length r = 1 + 2 * K \<and>
           (\<forall>k < 1 + 2 * K. r ! k = acc ! k +
              int (length (filter (\<lambda>st. counts_in K (high_priority st)
                     (spec_rank st K (assigned_of (by_student m) (name st))) k) sts)))"
  using assms
proof (induction sts arbitrary: acc)
  case Nil
  then show ?case by simp
next
  case (Cons st sts)
  let ?v = "assigned_of (by_student m) (name st)"
  let ?r = "spec_rank st K ?v"
  have gm: "get_match m (name st) = Inr ?v" using Cons.prems(1) by (simp add: get_match_assigned_of)
  have fr: "find_rank st ?v [Suc 0..<Suc K] = Inr ?r" using Cons.prems(2) by (simp add: find_rank_spec del: upt_Suc)
  have p1: "\<forall>st \<in> set sts. name st \<in> fst ` set (by_student m)" using Cons.prems(1) by simp
  have p2: "\<forall>st \<in> set sts. K \<le> length (choices st)" using Cons.prems(2) by simp
  show ?case
  proof (cases ?r)
    case None
    from Cons.IH[OF p1 p2 Cons.prems(3)] obtain r where
      r: "score_loop m sts K acc = Inr r" "length r = 1 + 2 * K"
         "\<forall>k < 1 + 2 * K. r ! k = acc ! k +
              int (length (filter (\<lambda>st. counts_in K (high_priority st)
                     (spec_rank st K (assigned_of (by_student m) (name st))) k) sts))"
      by blast
    have nohit: "\<not> counts_in K (high_priority st) ?r k" for k
      using None by (simp add: counts_in_def)
    show ?thesis using r gm fr None nohit by (simp del: upt_Suc)
  next
    case (Some i)
    then have i: "1 \<le> i" "i \<le> K" using spec_rank_range by blast+
    define acc' where "acc' = (let s2 = (acc[0 := acc ! 0 + 1])[i := (acc[0 := acc ! 0 + 1]) ! i + 1]
        in if high_priority st then s2[K + i := s2 ! (K + i) + 1] else s2)"
    have la: "length acc' = 1 + 2 * K" using Cons.prems(3) by (simp add: acc'_def Let_def)
    have step: "score_loop m (st # sts) K acc = score_loop m sts K acc'"
      using gm fr Some i Cons.prems(3) by (simp add: incr_def acc'_def Let_def del: upt_Suc)
    have upd: "acc' ! k = acc ! k + (if counts_in K (high_priority st) ?r k then 1 else 0)"
      if "k < 1 + 2 * K" for k
      using that Some i Cons.prems(3)
      by (auto simp: acc'_def Let_def counts_in_def nth_list_update)
    from Cons.IH[OF p1 p2 la] obtain r where
      r: "score_loop m sts K acc' = Inr r" "length r = 1 + 2 * K"
         "\<forall>k < 1 + 2 * K. r ! k = acc' ! k +
              int (length (filter (\<lambda>st. counts_in K (high_priority st)
                     (spec_rank st K (assigned_of (by_student m) (name st))) k) sts))"
      by blast
    show ?thesis using r step upd by simp
  qed
qed

lemma score_assignment_spec:
  assumes "\<forall>st \<in> set students. name st \<in> fst ` set (by_student m)"
      and "\<forall>st \<in> set students. n_choices \<le> length (choices st)"
  shows "score_assignment m students options n_choices mn mx
           = Inr (spec_score (assigned_of (by_student m)) students n_choices)"
proof -
  let ?acc = "(0::int) # replicate (2 * n_choices) 0"
  have "length ?acc = 1 + 2 * n_choices" by simp
  from score_loop_nth[OF assms this] obtain r where
    r: "score_loop m students n_choices ?acc = Inr r" "length r = 1 + 2 * n_choices"
       "\<forall>k < 1 + 2 * n_choices. r ! k = ?acc ! k +
              int (length (filter (\<lambda>st. counts_in n_choices (high_priority st)
                     (spec_rank st n_choices (assigned_of (by_student m) (name st))) k) students))"
    by blast
  have z: "?acc ! k = 0" if "k < 1 + 2 * n_choices" for k
    using that by (cases k) auto
  have "r = spec_score (assigned_of (by_student m)) students n_choices"
  proof (rule nth_equalityI)
    show "length r = length (spec_score (assigned_of (by_student m)) students n_choices)"
      using r(2) by (simp add: spec_score_length)
  next
    fix k assume "k < length r"
    then have k: "k < 1 + 2 * n_choices" using r(2) by simp
    show "r ! k = spec_score (assigned_of (by_student m)) students n_choices ! k"
      using r(3) k z[OF k] by (simp add: spec_score_nth)
  qed
  with r(1) show ?thesis by (simp add: score_assignment_def)
qed

lemma find_map_Suc: "List.find P (map Suc xs) = map_option Suc (List.find (\<lambda>i. P (Suc i)) xs)"
  by (induction xs) auto

lemma find_index_of:
  "List.find (\<lambda>i. opt = picks ! (i - 1)) [Suc 0..<Suc (length picks)] = map_option Suc (index_of picks opt)"
proof (induction picks)
  case Nil
  then show ?case by simp
next
  case (Cons x xs)
  have u: "[Suc 0..<Suc (length (x # xs))] = Suc 0 # map Suc [Suc 0..<Suc (length xs)]"
    by (simp add: map_Suc_upt upt_conv_Cons del: upt_Suc)
  have c: "List.find (\<lambda>i. opt = (x # xs) ! i) [Suc 0..<Suc (length xs)]
           = List.find (\<lambda>i. opt = xs ! (i - 1)) [Suc 0..<Suc (length xs)]"
    by (rule find_cong) (auto simp: nth_Cons' simp del: upt_Suc)
  show ?case
    unfolding u using Cons.IH c
    by (auto simp: find_map_Suc option.map_comp comp_def simp del: upt_Suc)
qed

lemma spec_rank_index_of:
  "length (choices st) = K \<Longrightarrow> spec_rank st K (Some opt) = map_option Suc (index_of (choices st) opt)"
  using find_index_of[of opt "choices st"] by (simp add: spec_rank_def del: upt_Suc)

lemma index_of_less: "index_of picks opt = Some r \<Longrightarrow> r < length picks"
  by (induction picks arbitrary: r) (auto split: if_splits)

lemma calculate_loop_nth:
  assumes "\<forall>st \<in> set sts. \<exists>opt. map_of (au_by_student am) (name st) = Some (Some opt)"
      and "\<forall>st \<in> set sts. map_of (sc_high_priority sc) (name st) = Some (high_priority st)"
      and "\<forall>st \<in> set sts. length (choices st) = K"
      and "sc_n_choices sc = K"
      and "length acc = 1 + 2 * K"
  shows "\<exists>r. calculate_loop sc am (map (\<lambda>st. (name st, choices st)) sts) acc = Inr r \<and>
           length r = 1 + 2 * K \<and>
           r ! 0 = acc ! 0 - int (length (filter (\<lambda>st. spec_rank st K (assigned_of (au_by_student am) (name st)) = None) sts)) \<and>
           (\<forall>k < 1 + 2 * K. 0 < k \<longrightarrow> r ! k = acc ! k +
              int (length (filter (\<lambda>st. counts_in K (high_priority st)
                     (spec_rank st K (assigned_of (au_by_student am) (name st))) k) sts)))"
  using assms
proof (induction sts arbitrary: acc)
  case Nil
  then show ?case by simp
next
  case (Cons st sts)
  from Cons.prems(1) obtain opt where opt: "map_of (au_by_student am) (name st) = Some (Some opt)"
    by auto
  then have v: "assigned_of (au_by_student am) (name st) = Some opt" by (simp add: assigned_of_def)
  let ?r = "spec_rank st K (Some opt)"
  have lk: "lookup am (name st) = Inr (Matched (Some opt))" using opt by (simp add: lookup_def)
  have hp: "map_of (sc_high_priority sc) (name st) = Some (high_priority st)" using Cons.prems(2) by simp
  have len: "length (choices st) = K" using Cons.prems(3) by simp
  have rk: "?r = map_option Suc (index_of (choices st) opt)" using len by (rule spec_rank_index_of)
  have p1: "\<forall>st \<in> set sts. \<exists>opt. map_of (au_by_student am) (name st) = Some (Some opt)"
    using Cons.prems(1) by simp
  have p2: "\<forall>st \<in> set sts. map_of (sc_high_priority sc) (name st) = Some (high_priority st)"
    using Cons.prems(2) by simp
  have p3: "\<forall>st \<in> set sts. length (choices st) = K" using Cons.prems(3) by simp
  note n = Cons.prems(4)
  show ?case
  proof (cases "index_of (choices st) opt")
    case None
    then have r: "?r = None" using rk by simp
    define acc' where "acc' = acc[0 := acc ! 0 - 1]"
    have la: "length acc' = 1 + 2 * K" using Cons.prems(5) by (simp add: acc'_def)
    have ne: "acc \<noteq> []" using Cons.prems(5) by auto
    have step: "calculate_loop sc am (map (\<lambda>st. (name st, choices st)) (st # sts)) acc
                 = calculate_loop sc am (map (\<lambda>st. (name st, choices st)) sts) acc'"
      using lk hp None ne by (simp add: acc'_def)
    from Cons.IH[OF p1 p2 p3 n la] obtain res where
      res: "calculate_loop sc am (map (\<lambda>st. (name st, choices st)) sts) acc' = Inr res"
           "length res = 1 + 2 * K"
           "res ! 0 = acc' ! 0 - int (length (filter (\<lambda>st. spec_rank st K (assigned_of (au_by_student am) (name st)) = None) sts))"
           "\<forall>k < 1 + 2 * K. 0 < k \<longrightarrow> res ! k = acc' ! k +
              int (length (filter (\<lambda>st. counts_in K (high_priority st)
                     (spec_rank st K (assigned_of (au_by_student am) (name st))) k) sts))"
      by blast
    have a0: "acc' ! 0 = acc ! 0 - 1" using ne by (simp add: acc'_def)
    have ak: "acc' ! k = acc ! k" if "0 < k" for k using that by (simp add: acc'_def)
    have nohit: "\<not> counts_in K (high_priority st) ?r k" for k using r by (simp add: counts_in_def)
    show ?thesis using res step a0 ak nohit r v by simp
  next
    case (Some j)
    then have r: "?r = Some (Suc j)" using rk by simp
    have j: "j < K" using index_of_less[OF Some] len by simp
    define acc' where "acc' = (let s1 = acc[Suc j := acc ! Suc j + 1]
        in if high_priority st then s1[Suc (K + j) := s1 ! Suc (K + j) + 1] else s1)"
    have la: "length acc' = 1 + 2 * K" using Cons.prems(5) by (simp add: acc'_def Let_def)
    have step: "calculate_loop sc am (map (\<lambda>st. (name st, choices st)) (st # sts)) acc
                 = calculate_loop sc am (map (\<lambda>st. (name st, choices st)) sts) acc'"
      using lk hp Some j n Cons.prems(5) by (simp add: acc'_def incr_def Let_def)
    from Cons.IH[OF p1 p2 p3 n la] obtain res where
      res: "calculate_loop sc am (map (\<lambda>st. (name st, choices st)) sts) acc' = Inr res"
           "length res = 1 + 2 * K"
           "res ! 0 = acc' ! 0 - int (length (filter (\<lambda>st. spec_rank st K (assigned_of (au_by_student am) (name st)) = None) sts))"
           "\<forall>k < 1 + 2 * K. 0 < k \<longrightarrow> res ! k = acc' ! k +
              int (length (filter (\<lambda>st. counts_in K (high_priority st)
                     (spec_rank st K (assigned_of (au_by_student am) (name st))) k) sts))"
      by blast
    have a0: "acc' ! 0 = acc ! 0" by (simp add: acc'_def Let_def)
    have ak: "acc' ! k = acc ! k + (if counts_in K (high_priority st) ?r k then 1 else 0)"
      if "0 < k" "k < 1 + 2 * K" for k
      using that r j Cons.prems(5)
      by (auto simp: acc'_def Let_def counts_in_def nth_list_update)
    show ?thesis using res step a0 ak r v by simp
  qed
qed

lemma remdups_constant: "xs \<noteq> [] \<Longrightarrow> \<forall>x \<in> set xs. x = c \<Longrightarrow> remdups xs = [c]"
proof (induction xs)
  case Nil
  then show ?case by simp
next
  case (Cons x xs)
  then show ?case by (cases xs) auto
qed

lemma ScoreCalculator_init_students:
  assumes "students \<noteq> []" and "\<forall>st \<in> set students. length (choices st) = K"
  shows "ScoreCalculator_init (map (\<lambda>st. (name st, choices st)) students)
           (map (\<lambda>st. (name st, high_priority st)) students)
         = Inr \<lparr>sc_n_choices = K, sc_choices = map (\<lambda>st. (name st, choices st)) students,
                sc_high_priority = map (\<lambda>st. (name st, high_priority st)) students\<rparr>"
proof -
  have "remdups (map (\<lambda>(nm, picks). length picks) (map (\<lambda>st. (name st, choices st)) students)) = [K]"
    using assms by (intro remdups_constant) auto
  moreover have "fst ` set (map (\<lambda>st. (name st, choices st)) students)
                = fst ` set (map (\<lambda>st. (name st, high_priority st)) students)"
    by (simp add: image_image)
  ultimately show ?thesis by (simp add: ScoreCalculator_init_def)
qed

lemma length_filter_compl: "int (length xs) - int (length (filter (\<lambda>x. \<not> P x) xs)) = int (length (filter P xs))"
  using sum_length_filter_compl[of P xs] by simp

lemma calculate_score_spec:
  assumes ne: "students \<noteq> []" and d: "distinct (map name students)"
      and len: "\<forall>st \<in> set students. length (choices st) = K"
      and m: "\<forall>st \<in> set students. \<exists>opt. map_of (au_by_student am) (name st) = Some (Some opt)"
  shows "\<exists>sc. ScoreCalculator_init (map (\<lambda>st. (name st, choices st)) students)
                 (map (\<lambda>st. (name st, high_priority st)) students) = Inr sc \<and>
              calculate_score sc am = Inr (spec_score (assigned_of (au_by_student am)) students K)"
proof -
  let ?sc = "\<lparr>sc_n_choices = K, sc_choices = map (\<lambda>st. (name st, choices st)) students,
                sc_high_priority = map (\<lambda>st. (name st, high_priority st)) students\<rparr>"
  let ?acc = "int (length students) # replicate (K * 2) 0"
  have init: "ScoreCalculator_init (map (\<lambda>st. (name st, choices st)) students)
                 (map (\<lambda>st. (name st, high_priority st)) students) = Inr ?sc"
    using ne len by (rule ScoreCalculator_init_students)
  have hp: "\<forall>st \<in> set students. map_of (sc_high_priority ?sc) (name st) = Some (high_priority st)"
  proof
    fix st assume "st \<in> set students"
    then have "(name st, high_priority st) \<in> set (map (\<lambda>st. (name st, high_priority st)) students)"
      by auto
    moreover have "distinct (map fst (map (\<lambda>st. (name st, high_priority st)) students))"
      using d by (simp add: comp_def)
    ultimately show "map_of (sc_high_priority ?sc) (name st) = Some (high_priority st)"
      by simp
  qed
  have la: "length ?acc = 1 + 2 * K" by simp
  from calculate_loop_nth[OF m hp len _ la] obtain r where
    r: "calculate_loop ?sc am (map (\<lambda>st. (name st, choices st)) students) ?acc = Inr r"
       "length r = 1 + 2 * K"
       "r ! 0 = ?acc ! 0 - int (length (filter (\<lambda>st. spec_rank st K (assigned_of (au_by_student am) (name st)) = None) students))"
       "\<forall>k < 1 + 2 * K. 0 < k \<longrightarrow> r ! k = ?acc ! k +
              int (length (filter (\<lambda>st. counts_in K (high_priority st)
                     (spec_rank st K (assigned_of (au_by_student am) (name st))) k) students))"
    by auto
  have "r = spec_score (assigned_of (au_by_student am)) students K"
  proof (rule nth_equalityI)
    show "length r = length (spec_score (assigned_of (au_by_student am)) students K)"
      using r(2) by (simp add: spec_score_length)
  next
    fix k assume "k < length r"
    then have k: "k < 1 + 2 * K" using r(2) by simp
    show "r ! k = spec_score (assigned_of (au_by_student am)) students K ! k"
    proof (cases "k = 0")
      case True
      have "r ! 0 = int (length (filter (\<lambda>st. spec_rank st K (assigned_of (au_by_student am) (name st)) \<noteq> None) students))"
        using r(3) length_filter_compl[of students "\<lambda>st. spec_rank st K (assigned_of (au_by_student am) (name st)) \<noteq> None"]
        by simp
      then show ?thesis using True k by (simp add: spec_score_nth counts_in_def)
    next
      case False
      then obtain j where j: "k = Suc j" by (cases k) auto
      with k have "?acc ! k = 0" by simp
      with r(4) k False show ?thesis by (simp add: spec_score_nth)
    qed
  qed
  with r(1) init show ?thesis by (auto simp: calculate_score_def)
qed

lemma calculate_loop_incomplete:
  assumes "\<forall>st \<in> set sts. \<exists>v. map_of (au_by_student am) (name st) = Some v"
      and "\<forall>st \<in> set sts. \<exists>hp. map_of (sc_high_priority sc) (name st) = Some hp"
      and "\<forall>st \<in> set sts. length (choices st) = sc_n_choices sc"
      and "\<exists>st \<in> set sts. map_of (au_by_student am) (name st) = Some None"
      and "length acc = 1 + 2 * sc_n_choices sc"
  shows "calculate_loop sc am (map (\<lambda>st. (name st, choices st)) sts) acc = Inl ValueError"
  using assms
proof (induction sts arbitrary: acc)
  case Nil
  then show ?case by simp
next
  case (Cons st sts)
  from Cons.prems(1) obtain v where v: "map_of (au_by_student am) (name st) = Some v" by auto
  from Cons.prems(2) obtain hp where hp: "map_of (sc_high_priority sc) (name st) = Some hp" by auto
  have lk: "lookup am (name st) = Inr (Matched v)" using v by (simp add: lookup_def)
  show ?case
  proof (cases v)
    case None
    then show ?thesis using lk hp by simp
  next
    case (Some opt)
    have p1: "\<forall>st \<in> set sts. \<exists>v. map_of (au_by_student am) (name st) = Some v"
      using Cons.prems(1) by simp
    have p2: "\<forall>st \<in> set sts. \<exists>hp. map_of (sc_high_priority sc) (name st) = Some hp"
      using Cons.prems(2) by simp
    have p3: "\<forall>st \<in> set sts. length (choices st) = sc_n_choices sc" using Cons.prems(3) by simp
    have p4: "\<exists>st \<in> set sts. map_of (au_by_student am) (name st) = Some None"
      using Cons.prems(4) v Some by auto
    have ne: "acc \<noteq> []" using Cons.prems(5) by auto
    show ?thesis
    proof (cases "index_of (choices st) opt")
      case None
      have "length (acc[0 := acc ! 0 - 1]) = 1 + 2 * sc_n_choices sc" using Cons.prems(5) by simp
      from Cons.IH[OF p1 p2 p3 p4 this] show ?thesis using lk hp Some None ne by simp
    next
      case (Some j)
      have j: "j < sc_n_choices sc" using index_of_less[OF Some] Cons.prems(3) by simp
      define acc' where "acc' = (let s1 = acc[Suc j := acc ! Suc j + 1]
          in if hp then s1[Suc (sc_n_choices sc + j) := s1 ! Suc (sc_n_choices sc + j) + 1] else s1)"
      have la: "length acc' = 1 + 2 * sc_n_choices sc"
        using Cons.prems(5) by (simp add: acc'_def Let_def)
      have step: "calculate_loop sc am (map (\<lambda>st. (name st, choices st)) (st # sts)) acc
                 = calculate_loop sc am (map (\<lambda>st. (name st, choices st)) sts) acc'"
        using lk hp \<open>v = Some opt\<close> Some j Cons.prems(5) by (simp add: acc'_def incr_def Let_def)
      from Cons.IH[OF p1 p2 p3 p4 la] step show ?thesis by simp
    qed
  qed
qed

lemma reduce_pairs_incomplete: "(s, None) \<in> set bs \<Longrightarrow> reduce_pairs bs = Inl AssertionError"
  by (induction bs rule: reduce_pairs.induct) (auto split: sum.splits)

text \<open>
  Claim C5. The students are at least one, their names are distinct and each has exactly
  \<open>n_choices\<close> choices; every student is matched, and the old and the new \<^verbatim>\<open>Matching\<close> hold
  the same assignment. Then the \<^verbatim>\<open>ScoreCalculator\<close> of the old script can be built from the
  students' data, and \<^verbatim>\<open>calculate_score\<close> and \<^verbatim>\<open>score_assignment\<close> both return the score of
  the reference definition, hence the same tuple.
\<close>

theorem scorers_agree_with_specification:
  assumes "students \<noteq> []" and "distinct (map name students)"
      and "\<forall>st \<in> set students. length (choices st) = n_choices"
      and "\<forall>st \<in> set students. \<exists>opt. map_of (by_student m) (name st) = Some (Some opt)"
      and "au_by_student am = by_student m"
  shows "\<exists>sc. ScoreCalculator_init (map (\<lambda>st. (name st, choices st)) students)
                 (map (\<lambda>st. (name st, high_priority st)) students) = Inr sc \<and>
              calculate_score sc am
                = Inr (spec_score (assigned_of (by_student m)) students n_choices) \<and>
              score_assignment m students options n_choices min_per_option max_per_option
                = Inr (spec_score (assigned_of (by_student m)) students n_choices)"
proof -
  have k: "\<forall>st \<in> set students. name st \<in> fst ` set (by_student m)"
    using assms(4) by (auto simp: in_keys_iff)
  have l: "\<forall>st \<in> set students. n_choices \<le> length (choices st)" using assms(3) by simp
  from assms(4) have m': "\<forall>st \<in> set students. \<exists>opt. map_of (au_by_student am) (name st) = Some (Some opt)"
    by (simp add: assms(5))
  from calculate_score_spec[OF assms(1) assms(2) assms(3) m'] score_assignment_spec[OF k l]
  show ?thesis by (simp add: assms(5))
qed

theorem scorers_agree_with_specification_witness:
  "ScoreCalculator_init [(''a'', [''X'', ''Y'']), (''b'', [''X'', ''Y''])] [(''a'', False), (''b'', True)]
     = Inr \<lparr>sc_n_choices = 2, sc_choices = [(''a'', [''X'', ''Y'']), (''b'', [''X'', ''Y''])],
            sc_high_priority = [(''a'', False), (''b'', True)]\<rparr> \<and>
   calculate_score \<lparr>sc_n_choices = 2, sc_choices = [(''a'', [''X'', ''Y'']), (''b'', [''X'', ''Y''])],
                    sc_high_priority = [(''a'', False), (''b'', True)]\<rparr>
      \<lparr>au_by_option = [(''X'', [''a'']), (''Y'', [''b''])],
       au_by_student = [(''a'', Some ''X''), (''b'', Some ''Y'')]\<rparr> = Inr [2, 1, 1, 0, 1] \<and>
   score_assignment
      \<lparr>by_student = [(''a'', Some ''X''), (''b'', Some ''Y'')],
       by_option = [(''X'', [''a'']), (''Y'', [''b''])],
       student_locked = [(''a'', False), (''b'', False)]\<rparr>
      [\<lparr>name = ''a'', high_priority = False, choices = [''X'', ''Y'']\<rparr>,
       \<lparr>name = ''b'', high_priority = True, choices = [''X'', ''Y'']\<rparr>]
      [''X'', ''Y''] 2 1 1 = Inr [2, 1, 1, 0, 1]"
proof -
  let ?students = "[\<lparr>name = ''a'', high_priority = False, choices = [''X'', ''Y'']\<rparr>,
                    \<lparr>name = ''b'', high_priority = True, choices = [''X'', ''Y'']\<rparr>]"
  let ?m = "\<lparr>by_student = [(''a'', Some ''X''), (''b'', Some ''Y'')],
             by_option = [(''X'', [''a'']), (''Y'', [''b''])],
             student_locked = [(''a'', False), (''b'', False)]\<rparr>"
  let ?am = "\<lparr>au_by_option = [(''X'', [''a'']), (''Y'', [''b''])],
              au_by_student = [(''a'', Some ''X''), (''b'', Some ''Y'')]\<rparr>"
  have h1: "?students \<noteq> []" by simp
  have h2: "distinct (map name ?students)" by simp
  have h3: "\<forall>st \<in> set ?students. length (choices st) = 2" by simp
  have h4: "\<forall>st \<in> set ?students. \<exists>opt. map_of (by_student ?m) (name st) = Some (Some opt)" by simp
  have h5: "au_by_student ?am = by_student ?m" by simp
  have v: "spec_score (assigned_of (by_student ?m)) ?students 2 = [2, 1, 1, 0, 1]" by code_simp
  have i: "ScoreCalculator_init (map (\<lambda>st. (name st, choices st)) ?students)
             (map (\<lambda>st. (name st, high_priority st)) ?students)
           = Inr \<lparr>sc_n_choices = 2, sc_choices = [(''a'', [''X'', ''Y'']), (''b'', [''X'', ''Y''])],
                  sc_high_priority = [(''a'', False), (''b'', True)]\<rparr>"
    by (simp add: ScoreCalculator_init_def)
  from scorers_agree_with_specification[OF h1 h2 h3 h4 h5, of "[''X'', ''Y'']" 1 1] i
  show ?thesis unfolding v by simp
qed

text \<open>
  Claim C6, as amended. Some student of the matching is unassigned. The old scorer
  \<^verbatim>\<open>calculate_score\<close> raises ValueError. The new \<^verbatim>\<open>score_assignment\<close> raises nothing: it
  returns the score of the reference definition, in which an unassigned student counts
  in no bucket. In the staged engine the incomplete assignment is refused by the next
  statement of the base case, \<^verbatim>\<open>reduce_to_pairs\<close>, whose assertion fails.
\<close>

theorem scoring_an_incomplete_assignment:
  assumes "students \<noteq> []"
      and "\<forall>st \<in> set students. length (choices st) = n_choices"
      and "\<forall>st \<in> set students. name st \<in> fst ` set (by_student m)"
      and "\<exists>st \<in> set students. map_of (by_student m) (name st) = Some None"
      and "au_by_student am = by_student m"
  shows "(\<exists>sc. ScoreCalculator_init (map (\<lambda>st. (name st, choices st)) students)
                 (map (\<lambda>st. (name st, high_priority st)) students) = Inr sc \<and>
               calculate_score sc am = Inl ValueError) \<and>
         score_assignment m students options n_choices min_per_option max_per_option
           = Inr (spec_score (assigned_of (by_student m)) students n_choices) \<and>
         reduce_to_pairs m = Inl AssertionError"
proof -
  let ?sc = "\<lparr>sc_n_choices = n_choices, sc_choices = map (\<lambda>st. (name st, choices st)) students,
                sc_high_priority = map (\<lambda>st. (name st, high_priority st)) students\<rparr>"
  have init: "ScoreCalculator_init (map (\<lambda>st. (name st, choices st)) students)
                 (map (\<lambda>st. (name st, high_priority st)) students) = Inr ?sc"
    using assms(1) assms(2) by (rule ScoreCalculator_init_students)
  have a1: "\<forall>st \<in> set students. \<exists>v. map_of (au_by_student am) (name st) = Some v"
    using assms(3) by (auto simp: assms(5) in_keys_iff)
  have a2: "\<forall>st \<in> set students. \<exists>hp. map_of (sc_high_priority ?sc) (name st) = Some hp"
  proof
    fix st assume "st \<in> set students"
    then have "name st \<in> fst ` set (map (\<lambda>st. (name st, high_priority st)) students)"
      by (auto simp: image_image)
    then show "\<exists>hp. map_of (sc_high_priority ?sc) (name st) = Some hp"
      by (simp only: in_keys_iff score_calculator.simps) blast
  qed
  have a3: "\<forall>st \<in> set students. length (choices st) = sc_n_choices ?sc" using assms(2) by simp
  have a4: "\<exists>st \<in> set students. map_of (au_by_student am) (name st) = Some None"
    using assms(4) by (simp add: assms(5))
  have a5: "length (int (length (sc_choices ?sc)) # replicate (sc_n_choices ?sc * 2) 0)
              = 1 + 2 * sc_n_choices ?sc" by simp
  have old: "calculate_score ?sc am = Inl ValueError"
    unfolding calculate_score_def
    using calculate_loop_incomplete[OF a1 a2 a3 a4 a5] by simp
  have l: "\<forall>st \<in> set students. n_choices \<le> length (choices st)" using assms(2) by simp
  from assms(4) obtain st :: student where "map_of (by_student m) (name st) = Some None" by auto
  then have "(name st, None) \<in> set (by_student m)" by (rule map_of_SomeD)
  then have "reduce_to_pairs m = Inl AssertionError"
    unfolding reduce_to_pairs_def by (rule reduce_pairs_incomplete)
  with init old score_assignment_spec[OF assms(3) l] show ?thesis by blast
qed

theorem scoring_an_incomplete_assignment_witness:
  "calculate_score \<lparr>sc_n_choices = 1, sc_choices = [(''a'', [''X''])],
                    sc_high_priority = [(''a'', False)]\<rparr>
      \<lparr>au_by_option = [(''X'', [])], au_by_student = [(''a'', None)]\<rparr> = Inl ValueError \<and>
   score_assignment
      \<lparr>by_student = [(''a'', None)], by_option = [(''X'', [])], student_locked = [(''a'', False)]\<rparr>
      [\<lparr>name = ''a'', high_priority = False, choices = [''X'']\<rparr>] [''X''] 1 1 1 = Inr [0, 0, 0] \<and>
   reduce_to_pairs
      \<lparr>by_student = [(''a'', None)], by_option = [(''X'', [])], student_locked = [(''a'', False)]\<rparr>
     = Inl AssertionError"
proof -
  let ?students = "[\<lparr>name = ''a'', high_priority = False, choices = [''X'']\<rparr>]"
  let ?m = "\<lparr>by_student = [(''a'', None)], by_option = [(''X'', [])],
             student_locked = [(''a'', False)]\<rparr>"
  let ?am = "\<lparr>au_by_option = [(''X'', [])], au_by_student = [(''a'', None)]\<rparr>"
  have h1: "?students \<noteq> []" by simp
  have h2: "\<forall>st \<in> set ?students. length (choices st) = 1" by simp
  have h3: "\<forall>st \<in> set ?students. name st \<in> fst ` set (by_student ?m)" by simp
  have h4: "\<exists>st \<in> set ?students. map_of (by_student ?m) (name st) = Some None" by simp
  have h5: "au_by_student ?am = by_student ?m" by simp
  have i: "ScoreCalculator_init (map (\<lambda>st. (name st, choices st)) ?students)
             (map (\<lambda>st. (name st, high_priority st)) ?students)
           = Inr \<lparr>sc_n_choices = 1, sc_choices = [(''a'', [''X''])],
                  sc_high_priority = [(''a'', False)]\<rparr>"
    by (simp add: ScoreCalculator_init_def)
  have v: "spec_score (assigned_of (by_student ?m)) ?students 1 = [0, 0, 0]" by code_simp
  from scoring_an_incomplete_assignment[OF h1 h2 h3 h4 h5, of "[''X'']" 1 1] i
  show ?thesis unfolding v by simp
qed

text \<open>
  The claim as stated fails for the new scorer: with the only student unassigned,
  \<^verbatim>\<open>score_assignment\<close> returns the score \<open>(0, 0, 0)\<close>.
\<close>

theorem score_assignment_incomplete_counterexample:
  "map_of (by_student \<lparr>by_student = [(''a'', None)], by_option = [(''X'', [])],
                        student_locked = [(''a'', False)]\<rparr>) ''a'' = Some None \<and>
   score_assignment
      \<lparr>by_student = [(''a'', None)], by_option = [(''X'', [])], student_locked = [(''a'', False)]\<rparr>
      [\<lparr>name = ''a'', high_priority = False, choices = [''X'']\<rparr>] [''X''] 1 1 1 = Inr [0, 0, 0]"
  by code_simp

section \<open>Frame properties of the search\<close>

lemma keys_update_existing: "map_of al k \<noteq> None \<Longrightarrow> map fst (AList.update k v al) = map fst al"
  using in_keys_iff[of k al] by (simp add: update_keys)

lemma assoc_list_eqI:
  "map fst xs = map fst ys \<Longrightarrow> map_of xs = map_of ys \<Longrightarrow> distinct (map fst xs) \<Longrightarrow> xs = ys"
proof (induction xs arbitrary: ys)
  case Nil
  then show ?case by simp
next
  case (Cons x xs)
  then obtain y ys' where ys: "ys = y # ys'" by (cases ys) auto
  obtain k v where x: "x = (k, v)" by (cases x)
  obtain k' v' where y: "y = (k', v')" by (cases y)
  from Cons.prems(1) ys x y have k: "k' = k" and keys: "map fst xs = map fst ys'" by auto
  from Cons.prems(2) ys x y k have v: "v' = v" by (metis fun_upd_same map_of.simps(2) option.inject prod.sel(1) prod.sel(2))
  from Cons.prems(3) x have nk: "k \<notin> fst ` set xs" and d: "distinct (map fst xs)" by auto
  have "map_of xs = map_of ys'"
  proof
    fix a
    show "map_of xs a = map_of ys' a"
    proof (cases "a = k")
      case True
      with nk keys show ?thesis
        by (metis image_set map_of_eq_None_iff)
    next
      case False
      with Cons.prems(2) ys x y k show ?thesis
        by (metis fun_upd_other map_of.simps(2) prod.sel(1))
    qed
  qed
  from Cons.IH[OF keys this d] x y k v ys show ?case by simp
qed

text \<open>What the four writing methods do to the dicts.\<close>

lemma assign_effect:
  assumes "assign m s v = Inr m'"
  shows "\<exists>opt xs. v = Some opt \<and> map_of (by_student m) s = Some None \<and>
           map_of (student_locked m) s = Some False \<and> map_of (by_option m) opt = Some xs \<and>
           m' = m\<lparr>by_option := AList.update opt (set_add s xs) (by_option m),
                  by_student := AList.update s (Some opt) (by_student m)\<rparr>"
  using assms unfolding assign_def is_matched_def is_locked_def
  by (auto split: option.splits sum.splits bool.splits if_splits)

lemma erase_effect:
  assumes "erase m s = Inr m'"
  shows "\<exists>opt xs. map_of (by_student m) s = Some (Some opt) \<and>
           map_of (student_locked m) s = Some False \<and> map_of (by_option m) opt = Some xs \<and>
           s \<in> set xs \<and>
           m' = m\<lparr>by_option := AList.update opt (removeAll s xs) (by_option m),
                  by_student := AList.update s None (by_student m)\<rparr>"
  using assms unfolding erase_def is_matched_def is_locked_def set_remove_def
  by (auto split: option.splits sum.splits bool.splits if_splits)

lemma lock_effect:
  assumes "lock m s = Inr m'"
  shows "map_of (student_locked m) s = Some False \<and>
         m' = m\<lparr>student_locked := AList.update s True (student_locked m)\<rparr>"
  using assms unfolding lock_def is_locked_def
  by (auto split: option.splits sum.splits bool.splits if_splits)

lemma unlock_effect:
  assumes "unlock m s = Inr m'"
  shows "map_of (student_locked m) s = Some True \<and>
         m' = m\<lparr>student_locked := AList.update s False (student_locked m)\<rparr>"
  using assms unfolding unlock_def is_locked_def
  by (auto split: option.splits sum.splits bool.splits if_splits)

lemma well_formed_locked_key:
  "well_formed m \<Longrightarrow> (map_of (student_locked m) s \<noteq> None) = (map_of (by_student m) s \<noteq> None)"
  unfolding well_formed_def by (metis in_keys_iff image_set)

lemma assign_well_formed:
  assumes wf: "well_formed m" and a: "assign m s v = Inr m'"
  shows "well_formed m'"
proof -
  from assign_effect[OF a] obtain opt xs where
    v: "v = Some opt" and s: "map_of (by_student m) s = Some None"
    and o: "map_of (by_option m) opt = Some xs"
    and m': "m' = m\<lparr>by_option := AList.update opt (set_add s xs) (by_option m),
                  by_student := AList.update s (Some opt) (by_student m)\<rparr>"
    by blast
  from wf o have xs: "distinct xs" "set xs = {t. map_of (by_student m) t = Some (Some opt)}"
    unfolding well_formed_def by blast+
  with s have nin: "s \<notin> set xs" by simp
  have k1: "map fst (by_student m') = map fst (by_student m)"
    using s by (simp add: m' keys_update_existing)
  have k2: "map fst (by_option m') = map fst (by_option m)"
    using o by (simp add: m' keys_update_existing)
  show ?thesis
    unfolding well_formed_def
  proof (intro conjI allI impI)
    show "distinct (map fst (by_student m'))" using wf k1 by (simp add: well_formed_def)
    show "distinct (map fst (by_option m'))" using wf k2 by (simp add: well_formed_def)
    show "map fst (student_locked m') = map fst (by_student m')"
      using wf k1 by (simp add: well_formed_def m')
  next
    fix opt' ys assume a: "map_of (by_option m') opt' = Some ys"
    show "distinct ys"
    proof (cases "opt' = opt")
      case True
      with a have "ys = set_add s xs" by (simp add: m' update_conv')
      with xs nin show ?thesis by (simp add: set_add_def)
    next
      case False
      with a have "map_of (by_option m) opt' = Some ys" by (simp add: m' update_conv')
      with wf show ?thesis unfolding well_formed_def by blast
    qed
    show "set ys = {t. map_of (by_student m') t = Some (Some opt')}"
    proof (cases "opt' = opt")
      case True
      with a have "ys = set_add s xs" by (simp add: m' update_conv')
      with xs nin True show ?thesis by (auto simp: set_add_def m' update_conv')
    next
      case False
      with a have "map_of (by_option m) opt' = Some ys" by (simp add: m' update_conv')
      with wf have "set ys = {t. map_of (by_student m) t = Some (Some opt')}"
        unfolding well_formed_def by blast
      with False s show ?thesis by (auto simp: m' update_conv')
    qed
  next
    fix t opt' assume "map_of (by_student m') t = Some (Some opt')"
    then have "opt' = opt \<or> map_of (by_student m) t = Some (Some opt')"
      by (auto simp: m' update_conv' split: if_splits)
    moreover have "opt \<in> fst ` set (by_option m)" using o by (simp add: in_keys_iff)
    moreover have "fst ` set (by_option m') = fst ` set (by_option m)"
      using k2 by (metis image_set)
    ultimately show "opt' \<in> fst ` set (by_option m')"
      using wf unfolding well_formed_def by blast
  qed
qed

lemma erase_well_formed:
  assumes wf: "well_formed m" and a: "erase m s = Inr m'"
  shows "well_formed m'"
proof -
  from erase_effect[OF a] obtain opt xs where
    s: "map_of (by_student m) s = Some (Some opt)"
    and o: "map_of (by_option m) opt = Some xs"
    and m': "m' = m\<lparr>by_option := AList.update opt (removeAll s xs) (by_option m),
                  by_student := AList.update s None (by_student m)\<rparr>"
    by blast
  from wf o have xs: "distinct xs" "set xs = {t. map_of (by_student m) t = Some (Some opt)}"
    unfolding well_formed_def by blast+
  have k1: "map fst (by_student m') = map fst (by_student m)"
    using s by (simp add: m' keys_update_existing)
  have k2: "map fst (by_option m') = map fst (by_option m)"
    using o by (simp add: m' keys_update_existing)
  show ?thesis
    unfolding well_formed_def
  proof (intro conjI allI impI)
    show "distinct (map fst (by_student m'))" using wf k1 by (simp add: well_formed_def)
    show "distinct (map fst (by_option m'))" using wf k2 by (simp add: well_formed_def)
    show "map fst (student_locked m') = map fst (by_student m')"
      using wf k1 by (simp add: well_formed_def m')
  next
    fix opt' ys assume a: "map_of (by_option m') opt' = Some ys"
    show "distinct ys"
    proof (cases "opt' = opt")
      case True
      with a have "ys = removeAll s xs" by (simp add: m' update_conv')
      with xs show ?thesis by (simp add: distinct_removeAll)
    next
      case False
      with a have "map_of (by_option m) opt' = Some ys" by (simp add: m' update_conv')
      with wf show ?thesis unfolding well_formed_def by blast
    qed
    show "set ys = {t. map_of (by_student m') t = Some (Some opt')}"
    proof (cases "opt' = opt")
      case True
      with a have "ys = removeAll s xs" by (simp add: m' update_conv')
      with xs True show ?thesis by (auto simp: m' update_conv')
    next
      case False
      with a have "map_of (by_option m) opt' = Some ys" by (simp add: m' update_conv')
      with wf have "set ys = {t. map_of (by_student m) t = Some (Some opt')}"
        unfolding well_formed_def by blast
      with False s show ?thesis by (auto simp: m' update_conv')
    qed
  next
    fix t opt' assume "map_of (by_student m') t = Some (Some opt')"
    then have "map_of (by_student m) t = Some (Some opt')"
      by (auto simp: m' update_conv' split: if_splits)
    moreover have "fst ` set (by_option m') = fst ` set (by_option m)"
      using k2 by (metis image_set)
    ultimately show "opt' \<in> fst ` set (by_option m')"
      using wf unfolding well_formed_def by blast
  qed
qed

lemma lock_well_formed:
  assumes wf: "well_formed m" and a: "lock m s = Inr m'"
  shows "well_formed m'"
proof -
  from lock_effect[OF a] have s: "map_of (student_locked m) s = Some False"
    and m': "m' = m\<lparr>student_locked := AList.update s True (student_locked m)\<rparr>" by blast+
  have "map fst (student_locked m') = map fst (student_locked m)"
    using s by (simp add: m' keys_update_existing)
  with wf show ?thesis unfolding well_formed_def by (simp add: m')
qed

lemma unlock_well_formed:
  assumes wf: "well_formed m" and a: "unlock m s = Inr m'"
  shows "well_formed m'"
proof -
  from unlock_effect[OF a] have s: "map_of (student_locked m) s = Some True"
    and m': "m' = m\<lparr>student_locked := AList.update s False (student_locked m)\<rparr>" by blast+
  have "map fst (student_locked m') = map fst (student_locked m)"
    using s by (simp add: m' keys_update_existing)
  with wf show ?thesis unfolding well_formed_def by (simp add: m')
qed

lemma evolves_refl [simp]: "evolves m m"
  by (simp add: evolves_def)

lemma evolves_trans: "evolves a b \<Longrightarrow> evolves b c \<Longrightarrow> evolves a c"
  by (simp add: evolves_def)

lemma rest_same_refl [simp]: "rest_same w w"
  by (simp add: rest_same_def)

lemma rest_same_trans: "rest_same a b \<Longrightarrow> rest_same b c \<Longrightarrow> rest_same a c"
  by (simp add: rest_same_def)

lemma mutate_Inr:
  "mutate f w = (Inr u, w') \<longleftrightarrow>
     (\<exists>m'. f (match w) = Inr m' \<and> w' = w\<lparr>match := m', history := m' # history w\<rparr>)"
  by (auto simp: mutate_def split: sum.splits)

lemma mutate_Inl: "mutate f w = (Inl e, w') \<longleftrightarrow> f (match w) = Inl e \<and> w' = w"
  by (auto simp: mutate_def split: sum.splits)

lemma mutate_assign:
  assumes "mutate (\<lambda>m. assign m s v) w = (Inr u, w')"
  shows "evolves (match w) (match w') \<and> rest_same w w' \<and>
         student_locked (match w') = student_locked (match w) \<and>
         map_of (by_student (match w)) s = Some None \<and>
         map_of (student_locked (match w)) s = Some False \<and>
         (\<exists>opt. v = Some opt \<and> map_of (by_option (match w)) opt \<noteq> None) \<and>
         map_of (by_student (match w')) = (map_of (by_student (match w)))(s \<mapsto> v)"
proof -
  from assms obtain m' where a: "assign (match w) s v = Inr m'"
    and w': "w' = w\<lparr>match := m', history := m' # history w\<rparr>"
    by (auto simp: mutate_Inr)
  from assign_effect[OF a] obtain opt xs where
    e: "v = Some opt" "map_of (by_student (match w)) s = Some None"
       "map_of (student_locked (match w)) s = Some False" "map_of (by_option (match w)) opt = Some xs"
       "m' = (match w)\<lparr>by_option := AList.update opt (set_add s xs) (by_option (match w)),
                  by_student := AList.update s (Some opt) (by_student (match w))\<rparr>"
    by blast
  show ?thesis
    using e assign_well_formed[OF _ a]
    by (auto simp: w' evolves_def rest_same_def keys_update_existing update_conv')
qed

lemma mutate_erase:
  assumes "mutate (\<lambda>m. erase m s) w = (Inr u, w')"
  shows "evolves (match w) (match w') \<and> rest_same w w' \<and>
         student_locked (match w') = student_locked (match w) \<and>
         (\<exists>opt. map_of (by_student (match w)) s = Some (Some opt)) \<and>
         map_of (student_locked (match w)) s = Some False \<and>
         map_of (by_student (match w')) = (map_of (by_student (match w)))(s \<mapsto> None)"
proof -
  from assms obtain m' where a: "erase (match w) s = Inr m'"
    and w': "w' = w\<lparr>match := m', history := m' # history w\<rparr>"
    by (auto simp: mutate_Inr)
  from erase_effect[OF a] obtain opt xs where
    e: "map_of (by_student (match w)) s = Some (Some opt)"
       "map_of (student_locked (match w)) s = Some False" "map_of (by_option (match w)) opt = Some xs"
       "m' = (match w)\<lparr>by_option := AList.update opt (removeAll s xs) (by_option (match w)),
                  by_student := AList.update s None (by_student (match w))\<rparr>"
    by blast
  show ?thesis
    using e erase_well_formed[OF _ a]
    by (auto simp: w' evolves_def rest_same_def keys_update_existing update_conv')
qed

lemma mutate_lock:
  assumes "mutate (\<lambda>m. lock m s) w = (Inr u, w')"
  shows "evolves (match w) (match w') \<and> rest_same w w' \<and>
         by_student (match w') = by_student (match w) \<and>
         by_option (match w') = by_option (match w) \<and>
         map_of (student_locked (match w)) s = Some False \<and>
         map_of (student_locked (match w')) = (map_of (student_locked (match w)))(s \<mapsto> True)"
proof -
  from assms obtain m' where a: "lock (match w) s = Inr m'"
    and w': "w' = w\<lparr>match := m', history := m' # history w\<rparr>"
    by (auto simp: mutate_Inr)
  from lock_effect[OF a] lock_well_formed[OF _ a] show ?thesis
    by (auto simp: w' evolves_def rest_same_def keys_update_existing update_conv')
qed

lemma mutate_unlock:
  assumes "mutate (\<lambda>m. unlock m s) w = (Inr u, w')"
  shows "evolves (match w) (match w') \<and> rest_same w w' \<and>
         by_student (match w') = by_student (match w) \<and>
         by_option (match w') = by_option (match w) \<and>
         map_of (student_locked (match w)) s = Some True \<and>
         map_of (student_locked (match w')) = (map_of (student_locked (match w)))(s \<mapsto> False)"
proof -
  from assms obtain m' where a: "unlock (match w) s = Inr m'"
    and w': "w' = w\<lparr>match := m', history := m' # history w\<rparr>"
    by (auto simp: mutate_Inr)
  from unlock_effect[OF a] unlock_well_formed[OF _ a] show ?thesis
    by (auto simp: w' evolves_def rest_same_def keys_update_existing update_conv')
qed

lemma erase_many_effect:
  "erase_many names w = (Inr u, w') \<Longrightarrow>
     evolves (match w) (match w') \<and> rest_same w w' \<and>
     student_locked (match w') = student_locked (match w) \<and>
     (\<forall>t \<in> set names. \<exists>opt. map_of (by_student (match w)) t = Some (Some opt)) \<and>
     map_of (by_student (match w')) =
       (\<lambda>t. if t \<in> set names then Some None else map_of (by_student (match w)) t)"
proof (induction names arbitrary: w)
  case Nil
  then show ?case by auto
next
  case (Cons s names)
  from Cons.prems obtain u1 w1 where
    1: "mutate (\<lambda>m. erase m s) w = (Inr u1, w1)" and 2: "erase_many names w1 = (Inr u, w')"
    by (auto split: prod.splits sum.splits)
  note e = mutate_erase[OF 1]
  note ih = Cons.IH[OF 2]
  have "evolves (match w) (match w')" using e ih evolves_trans by blast
  moreover have "rest_same w w'" using e ih rest_same_trans by blast
  moreover have "student_locked (match w') = student_locked (match w)" using e ih by simp
  moreover have "\<forall>t \<in> set (s # names). \<exists>opt. map_of (by_student (match w)) t = Some (Some opt)"
    using e ih by (auto split: if_splits)
  moreover have "map_of (by_student (match w')) =
       (\<lambda>t. if t \<in> set (s # names) then Some None else map_of (by_student (match w)) t)"
    using e ih by auto
  ultimately show ?case by blast
qed

lemma assign_stage_effect:
  "assign_stage sts stage w = (Inr names, w') \<Longrightarrow>
     evolves (match w) (match w') \<and> rest_same w w' \<and>
     student_locked (match w') = student_locked (match w) \<and>
     (\<forall>t \<in> set names. map_of (by_student (match w)) t = Some None \<and>
        map_of (student_locked (match w)) t = Some False \<and>
        (\<exists>opt. map_of (by_student (match w')) t = Some (Some opt))) \<and>
     (\<forall>t. t \<notin> set names \<longrightarrow> map_of (by_student (match w')) t = map_of (by_student (match w)) t)"
proof (induction sts arbitrary: w names)
  case Nil
  then show ?case by auto
next
  case (Cons st sts)
  show ?case
  proof (cases "is_matched (match w) (name st)")
    case (Inl e)
    with Cons.prems show ?thesis by simp
  next
    case (Inr b)
    show ?thesis
    proof (cases b)
      case True
      with Inr Cons.prems have "assign_stage sts stage w = (Inr names, w')" by simp
      from Cons.IH[OF this] show ?thesis .
    next
      case False
      with Inr Cons.prems obtain c u1 w1 rest where
        c: "get_choice st stage = Inr c"
        and 1: "mutate (\<lambda>m. assign m (name st) (Some c)) w = (Inr u1, w1)"
        and 2: "assign_stage sts stage w1 = (Inr rest, w')"
        and n: "names = name st # rest"
        by (auto split: prod.splits sum.splits)
      note e = mutate_assign[OF 1]
      note ih = Cons.IH[OF 2]
      have ns: "name st \<notin> set rest" using e ih by auto
      have "evolves (match w) (match w')" using e ih evolves_trans by blast
      moreover have "rest_same w w'" using e ih rest_same_trans by blast
      moreover have "student_locked (match w') = student_locked (match w)" using e ih by simp
      moreover have "\<forall>t \<in> set names. map_of (by_student (match w)) t = Some None \<and>
        map_of (student_locked (match w)) t = Some False \<and>
        (\<exists>opt. map_of (by_student (match w')) t = Some (Some opt))"
        using e ih ns by (auto simp: n split: if_splits)
      moreover have "\<forall>t. t \<notin> set names \<longrightarrow>
          map_of (by_student (match w')) t = map_of (by_student (match w)) t"
        using e ih by (auto simp: n)
      ultimately show ?thesis by blast
    qed
  qed
qed

lemma remove_trimmed_effect:
  "remove_trimmed ss w = (Inr saved, w') \<Longrightarrow>
     evolves (match w) (match w') \<and> rest_same w w' \<and>
     student_locked (match w') = student_locked (match w) \<and>
     map fst saved = ss \<and> distinct ss \<and>
     (\<forall>(t, v) \<in> set saved. map_of (by_student (match w)) t = Some v \<and> v \<noteq> None) \<and>
     map_of (by_student (match w')) =
       (\<lambda>t. if t \<in> set ss then Some None else map_of (by_student (match w)) t)"
proof (induction ss arbitrary: w saved)
  case Nil
  then show ?case by auto
next
  case (Cons s ss)
  from Cons.prems obtain v u1 w1 rest where
    g: "get_match (match w) s = Inr v"
    and 1: "mutate (\<lambda>m. erase m s) w = (Inr u1, w1)"
    and 2: "remove_trimmed ss w1 = (Inr rest, w')"
    and n: "saved = (s, v) # rest"
    by (auto split: prod.splits sum.splits)
  note e = mutate_erase[OF 1]
  note ih = Cons.IH[OF 2]
  from g have gv: "map_of (by_student (match w)) s = Some v"
    by (auto simp: get_match_def split: option.splits)
  have ns: "s \<notin> set ss"
  proof
    assume "s \<in> set ss"
    then obtain v' where "(s, v') \<in> set rest" using ih by (metis (no_types, lifting) imageE list.set_map prod.collapse)
    with ih have "map_of (by_student (match w1)) s = Some v'" "v' \<noteq> None" by auto
    with e show False by simp
  qed
  have "evolves (match w) (match w')" using e ih evolves_trans by blast
  moreover have "rest_same w w'" using e ih rest_same_trans by blast
  moreover have "student_locked (match w') = student_locked (match w)" using e ih by simp
  moreover have "map fst saved = s # ss" using ih n by simp
  moreover have "distinct (s # ss)" using ih ns by simp
  moreover have "\<forall>(t, v) \<in> set saved. map_of (by_student (match w)) t = Some v \<and> v \<noteq> None"
  proof -
    have "map_of (by_student (match w)) t = Some v' \<and> v' \<noteq> None" if "(t, v') \<in> set rest" for t v'
    proof -
      from that ih have a: "map_of (by_student (match w1)) t = Some v'" "v' \<noteq> None" by auto
      with e show ?thesis by (auto split: if_splits)
    qed
    with gv e show ?thesis by (auto simp: n)
  qed
  moreover have "map_of (by_student (match w')) =
       (\<lambda>t. if t \<in> set (s # ss) then Some None else map_of (by_student (match w)) t)"
    using e ih by auto
  ultimately show ?case by blast
qed

lemma assign_pairs_effect:
  "assign_pairs saved w = (Inr u, w') \<Longrightarrow>
     evolves (match w) (match w') \<and> rest_same w w' \<and>
     student_locked (match w') = student_locked (match w) \<and>
     (\<forall>(t, v) \<in> set saved. map_of (by_student (match w)) t = Some None \<and>
        map_of (by_student (match w')) t = Some v) \<and>
     (\<forall>t. t \<notin> fst ` set saved \<longrightarrow> map_of (by_student (match w')) t = map_of (by_student (match w)) t)"
proof (induction saved arbitrary: w)
  case Nil
  then show ?case by auto
next
  case (Cons p saved)
  obtain s v where p: "p = (s, v)" by (cases p)
  from Cons.prems p obtain u1 w1 where
    1: "mutate (\<lambda>m. assign m s v) w = (Inr u1, w1)" and 2: "assign_pairs saved w1 = (Inr u, w')"
    by (auto split: prod.splits sum.splits)
  note e = mutate_assign[OF 1]
  note ih = Cons.IH[OF 2]
  have ns: "s \<notin> fst ` set saved"
  proof
    assume "s \<in> fst ` set saved"
    then obtain v' where "(s, v') \<in> set saved" by auto
    with ih have "map_of (by_student (match w1)) s = Some None" by auto
    with e show False by auto
  qed
  have "evolves (match w) (match w')" using e ih evolves_trans by blast
  moreover have "rest_same w w'" using e ih rest_same_trans by blast
  moreover have "student_locked (match w') = student_locked (match w)" using e ih by simp
  moreover have "\<forall>(t, v) \<in> set (p # saved). map_of (by_student (match w)) t = Some None \<and>
        map_of (by_student (match w')) t = Some v"
  proof -
    have "map_of (by_student (match w)) t = Some None \<and> map_of (by_student (match w')) t = Some v'"
      if "(t, v') \<in> set saved" for t v'
    proof -
      from that ih have a: "map_of (by_student (match w1)) t = Some None"
        "map_of (by_student (match w')) t = Some v'" by auto
      with e show ?thesis by (auto split: if_splits)
    qed
    moreover have "map_of (by_student (match w')) s = Some v" using e ih ns by auto
    ultimately show ?thesis using e by (auto simp: p)
  qed
  moreover have "\<forall>t. t \<notin> fst ` set (p # saved) \<longrightarrow>
      map_of (by_student (match w')) t = map_of (by_student (match w)) t"
    using e ih by (auto simp: p)
  ultimately show ?case by blast
qed

lemma lock_matched_loop_effect:
  "lock_matched_loop ks w = (Inr locked, w') \<Longrightarrow>
     evolves (match w) (match w') \<and> rest_same w w' \<and>
     by_student (match w') = by_student (match w) \<and>
     by_option (match w') = by_option (match w) \<and>
     (\<forall>t \<in> set locked. map_of (student_locked (match w)) t = Some False) \<and>
     map_of (student_locked (match w')) =
       (\<lambda>t. if t \<in> set locked then Some True else map_of (student_locked (match w)) t)"
proof (induction ks arbitrary: w locked)
  case Nil
  then show ?case by auto
next
  case (Cons s ks)
  consider (skip) "lock_matched_loop ks w = (Inr locked, w')"
    | (lock) u1 w1 rest where "mutate (\<lambda>m. lock m s) w = (Inr u1, w1)"
        "lock_matched_loop ks w1 = (Inr rest, w')" "locked = s # rest"
    using Cons.prems by (auto split: prod.splits sum.splits bool.splits)
  then show ?case
  proof cases
    case skip
    from Cons.IH[OF this] show ?thesis .
  next
    case lock
    note e = mutate_lock[OF lock(1)]
    note ih = Cons.IH[OF lock(2)]
    have "evolves (match w) (match w')" using e ih evolves_trans by blast
    moreover have "rest_same w w'" using e ih rest_same_trans by blast
    moreover have "by_student (match w') = by_student (match w)" using e ih by simp
    moreover have "by_option (match w') = by_option (match w)" using e ih by simp
    moreover have "\<forall>t \<in> set locked. map_of (student_locked (match w)) t = Some False"
      using e ih lock(3) by (auto split: if_splits)
    moreover have "map_of (student_locked (match w')) =
       (\<lambda>t. if t \<in> set locked then Some True else map_of (student_locked (match w)) t)"
      using e ih lock(3) by auto
    ultimately show ?thesis by blast
  qed
qed

lemma unlock_many_effect:
  "unlock_many locked w = (Inr u, w') \<Longrightarrow>
     evolves (match w) (match w') \<and> rest_same w w' \<and>
     by_student (match w') = by_student (match w) \<and>
     by_option (match w') = by_option (match w) \<and>
     map_of (student_locked (match w')) =
       (\<lambda>t. if t \<in> set locked then Some False else map_of (student_locked (match w)) t)"
proof (induction locked arbitrary: w)
  case Nil
  then show ?case by auto
next
  case (Cons s locked)
  from Cons.prems obtain u1 w1 where
    1: "mutate (\<lambda>m. unlock m s) w = (Inr u1, w1)" and 2: "unlock_many locked w1 = (Inr u, w')"
    by (auto split: prod.splits sum.splits)
  note e = mutate_unlock[OF 1]
  note ih = Cons.IH[OF 2]
  have "evolves (match w) (match w')" using e ih evolves_trans by blast
  moreover have "rest_same w w'" using e ih rest_same_trans by blast
  moreover have "by_student (match w') = by_student (match w)" using e ih by simp
  moreover have "by_option (match w') = by_option (match w)" using e ih by simp
  moreover have "map_of (student_locked (match w')) =
       (\<lambda>t. if t \<in> set (s # locked) then Some False else map_of (student_locked (match w)) t)"
    using e ih by auto
  ultimately show ?case by blast
qed

lemma restoredI:
  assumes "well_formed (match w)" and "evolves (match w) (match w')"
      and "map_of (by_student (match w')) = map_of (by_student (match w))"
      and "map_of (student_locked (match w')) = map_of (student_locked (match w))"
  shows "restored w w'"
proof -
  from assms(1,2) have wf': "well_formed (match w')" and
    k: "map fst (by_student (match w')) = map fst (by_student (match w))"
       "map fst (by_option (match w')) = map fst (by_option (match w))"
       "map fst (student_locked (match w')) = map fst (student_locked (match w))"
    by (auto simp: evolves_def)
  have "by_student (match w') = by_student (match w)"
    using k(1) assms(3) wf' by (intro assoc_list_eqI) (auto simp: well_formed_def)
  moreover have "student_locked (match w') = student_locked (match w)"
    using k(3) assms(4) wf' by (intro assoc_list_eqI) (auto simp: well_formed_def)
  ultimately show ?thesis using wf' k(2) by (simp add: restored_def)
qed

lemma restored_same_matching:
  assumes "well_formed (match w)" and "restored w w'"
  shows "same_matching (match w) (match w')"
proof -
  from assms(2) have wf': "well_formed (match w')"
    and bs: "by_student (match w') = by_student (match w)"
    and lk: "student_locked (match w') = student_locked (match w)"
    and ks: "map fst (by_option (match w')) = map fst (by_option (match w))"
    by (auto simp: restored_def)
  have "map_option set (map_of (by_option (match w')) opt) = map_option set (map_of (by_option (match w)) opt)"
    for opt
  proof (cases "map_of (by_option (match w)) opt")
    case None
    then have "opt \<notin> fst ` set (by_option (match w))" by (simp add: map_of_eq_None_iff)
    then have "opt \<notin> fst ` set (by_option (match w'))" using ks by (metis image_set)
    then have "map_of (by_option (match w')) opt = None" by (simp add: map_of_eq_None_iff)
    with None show ?thesis by simp
  next
    case (Some xs)
    then have "opt \<in> fst ` set (by_option (match w))" by (simp add: in_keys_iff)
    then have "opt \<in> fst ` set (by_option (match w'))" using ks by (metis image_set)
    then obtain ys where ys: "map_of (by_option (match w')) opt = Some ys"
      by (auto simp: in_keys_iff)
    from assms(1) Some have "set xs = {s. map_of (by_student (match w)) s = Some (Some opt)}"
      unfolding well_formed_def by blast
    moreover from wf' ys have "set ys = {s. map_of (by_student (match w')) s = Some (Some opt)}"
      unfolding well_formed_def by blast
    ultimately show ?thesis using Some ys bs by simp
  qed
  with bs lk ks show ?thesis by (simp add: same_matching_def)
qed

lemma restored_refl: "well_formed (match w) \<Longrightarrow> restored w w"
  by (simp add: restored_def)

lemma restored_trans: "restored a b \<Longrightarrow> restored b c \<Longrightarrow> restored a c"
  by (simp add: restored_def)

lemma fisher_yates_mset:
  "k \<le> length xs - 1 \<Longrightarrow> mset (fisher_yates rnd c k xs) = mset xs"
proof (induction k arbitrary: c xs)
  case 0
  then show ?case by simp
next
  case (Suc k)
  let ?j = "rnd c mod (Suc k + 1)"
  have i: "Suc k < length xs" using Suc.prems by simp
  have "?j < Suc k + 1" by simp
  with i have j: "?j < length xs" by linarith
  let ?ys = "xs[Suc k := xs ! ?j, ?j := xs ! Suc k]"
  have "k \<le> length ?ys - 1" using Suc.prems by simp
  from Suc.IH[OF this] have "mset (fisher_yates rnd (Suc c) k ?ys) = mset ?ys" .
  also have "mset ?ys = mset xs" using i j by (simp add: mset_swap)
  finally show ?case by (simp add: Let_def)
qed

lemma shuffle_effect:
  "shuffle xs w = (ys, w') \<Longrightarrow>
     mset ys = mset xs \<and> match w' = match w \<and> history w' = history w \<and> rest_same w w'"
  by (auto simp: shuffle_def fisher_yates_mset rest_same_def)

lemma fill_underfilled_effect:
  "fill_underfilled unhappy opts w = (Inr u, w') \<Longrightarrow>
     evolves (match w) (match w') \<and> rest_same w w' \<and>
     student_locked (match w') = student_locked (match w) \<and>
     length opts \<le> length unhappy \<and>
     (\<forall>t \<in> set (take (length opts) unhappy). map_of (by_student (match w)) t = Some None) \<and>
     (\<forall>t. t \<notin> set (take (length opts) unhappy) \<longrightarrow>
          map_of (by_student (match w')) t = map_of (by_student (match w)) t)"
proof (induction unhappy opts w rule: fill_underfilled.induct)
  case (1 unhappy w)
  then show ?case by auto
next
  case (2 opt opts w)
  then show ?case by simp
next
  case (3 s ss opt opts w)
  from "3.prems" obtain u1 w1 where
    1: "mutate (\<lambda>m. assign m s (Some opt)) w = (Inr u1, w1)"
    and 2: "fill_underfilled ss opts w1 = (Inr u, w')"
    by (auto split: prod.splits sum.splits)
  note e = mutate_assign[OF 1]
  note ih = "3.IH"[OF 1[symmetric] refl 2]
  have ih': "evolves (match w1) (match w')" "rest_same w1 w'"
     "student_locked (match w') = student_locked (match w1)" "length opts \<le> length ss"
     "\<forall>t \<in> set (take (length opts) ss). map_of (by_student (match w1)) t = Some None"
     "\<forall>t. t \<notin> set (take (length opts) ss) \<longrightarrow>
          map_of (by_student (match w')) t = map_of (by_student (match w1)) t"
    using ih by blast+
  have ns: "s \<notin> set (take (length opts) ss)" using e ih'(5) by auto
  have "evolves (match w) (match w')" using e ih'(1) evolves_trans by blast
  moreover have "rest_same w w'" using e ih'(2) rest_same_trans by blast
  moreover have "student_locked (match w') = student_locked (match w)" using e ih'(3) by simp
  moreover have "length (opt # opts) \<le> length (s # ss)" using ih'(4) by simp
  moreover have "\<forall>t \<in> set (take (length (opt # opts)) (s # ss)). map_of (by_student (match w)) t = Some None"
    using e ih'(5) by (auto split: if_splits)
  moreover have "\<forall>t. t \<notin> set (take (length (opt # opts)) (s # ss)) \<longrightarrow>
          map_of (by_student (match w')) t = map_of (by_student (match w)) t"
    using e ih'(6) by auto
  ultimately show ?case by blast
qed

lemma fill_spots_effect:
  "fill_spots ss spots w = (Inr u, w') \<Longrightarrow>
     evolves (match w) (match w') \<and> rest_same w w' \<and>
     student_locked (match w') = student_locked (match w) \<and>
     length ss \<le> length spots \<and>
     (\<forall>t \<in> set ss. map_of (by_student (match w)) t = Some None) \<and>
     (\<forall>t. t \<notin> set ss \<longrightarrow> map_of (by_student (match w')) t = map_of (by_student (match w)) t)"
proof (induction ss spots w rule: fill_spots.induct)
  case (1 spots w)
  then show ?case by auto
next
  case (2 s ss w)
  then show ?case by simp
next
  case (3 s ss spot spots w)
  from "3.prems" obtain u1 w1 where
    1: "mutate (\<lambda>m. assign m s (Some spot)) w = (Inr u1, w1)"
    and 2: "fill_spots ss spots w1 = (Inr u, w')"
    by (auto split: prod.splits sum.splits)
  note e = mutate_assign[OF 1]
  note ih = "3.IH"[OF 1[symmetric] refl 2]
  have ih': "evolves (match w1) (match w')" "rest_same w1 w'"
     "student_locked (match w') = student_locked (match w1)" "length ss \<le> length spots"
     "\<forall>t \<in> set ss. map_of (by_student (match w1)) t = Some None"
     "\<forall>t. t \<notin> set ss \<longrightarrow> map_of (by_student (match w')) t = map_of (by_student (match w1)) t"
    using ih by blast+
  have ns: "s \<notin> set ss" using e ih'(5) by auto
  have "evolves (match w) (match w')" using e ih'(1) evolves_trans by blast
  moreover have "rest_same w w'" using e ih'(2) rest_same_trans by blast
  moreover have "student_locked (match w') = student_locked (match w)" using e ih'(3) by simp
  moreover have "length (s # ss) \<le> length (spot # spots)" using ih'(4) by simp
  moreover have "\<forall>t \<in> set (s # ss). map_of (by_student (match w)) t = Some None"
    using e ih'(5) by (auto split: if_splits)
  moreover have "\<forall>t. t \<notin> set (s # ss) \<longrightarrow>
          map_of (by_student (match w')) t = map_of (by_student (match w)) t"
    using e ih'(6) by auto
  ultimately show ?case by blast
qed

text \<open>The resolver never returns a non-empty queue, so the eviction never gets going.\<close>

lemma find_more_unhappy_students_Inr:
  "find_more_unhappy_students students options n_choices mn mx w = (Inr queue, w') \<Longrightarrow>
     queue = [] \<and> options = []"
  by (auto simp: find_more_unhappy_students_def split: sum.splits prod.splits if_splits)

lemma eviction_fails:
  assumes "0 < k"
  shows "(case find_more_unhappy_students students options n_choices mn mx w of
            (Inl e, w1) \<Rightarrow> (Inl e, w1)
          | (Inr unhappy_queue, w1) \<Rightarrow> evict_loop unhappy_queue [0..<k] w1) \<noteq> (Inr evicted, w')"
proof -
  from assms have k: "[0..<k] = 0 # [1..<k]" by (simp add: upt_conv_Cons)
  obtain r w1 where f: "find_more_unhappy_students students options n_choices mn mx w = (r, w1)"
    by (cases "find_more_unhappy_students students options n_choices mn mx w")
  show ?thesis
  proof (cases r)
    case (Inl e)
    with f show ?thesis by simp
  next
    case (Inr queue)
    with f find_more_unhappy_students_Inr have "queue = []" by blast
    with f Inr show ?thesis by (simp add: k)
  qed
qed

lemma stage_induct:
  assumes base: "\<And>stage. n_choices < stage \<Longrightarrow> P stage"
      and step: "\<And>stage. stage \<le> n_choices \<Longrightarrow> P (stage + 1) \<Longrightarrow> P stage"
  shows "P (stage :: nat)"
proof (induction "Suc n_choices - stage" arbitrary: stage)
  case 0
  then show ?case using base by simp
next
  case (Suc k)
  then have "stage \<le> n_choices" and "k = Suc n_choices - (stage + 1)" by simp_all
  with Suc.hyps(1) step show ?case by blast
qed

lemma restored_evolves: "restored w w' \<Longrightarrow> evolves (match w) (match w')"
  by (simp add: restored_def evolves_def)

lemma base_case_Inr:
  assumes "assignment_algorithm_base_case students options n_choices mn mx w = (Inr (pairs, score), w')"
  shows "\<exists>unhappy w3 w4 w6 w7.
    \<not> get_n_unmatched (match w) < length (list_underfilled_options (match w) mn) \<and>
    shuffle (list_unmatched_students (match w)) w = (unhappy, w3) \<and>
    fill_underfilled unhappy (list_underfilled_options (match w) mn) w3 = (Inr (), w4) \<and>
    ((length unhappy > length (list_underfilled_options (match w) mn) \<and>
      (\<exists>spots w5. shuffle (list_empty_spots (match w4) mn mx) w4 = (spots, w5) \<and>
         fill_spots (drop (length (list_underfilled_options (match w) mn)) unhappy) spots w5 = (Inr (), w6)))
     \<or> (\<not> length unhappy > length (list_underfilled_options (match w) mn) \<and> w6 = w4)) \<and>
    score_assignment (match w6) students options n_choices mn mx = Inr score \<and>
    reduce_to_pairs (match w6) = Inr pairs \<and>
    erase_many unhappy w6 = (Inr (), w7) \<and>
    w' = w7\<lparr>explored := (pairs, score) # explored w7\<rparr>"
proof -
  let ?uf = "list_underfilled_options (match w) mn"
  let ?n = "get_n_unmatched (match w)"
  let ?X = "case find_more_unhappy_students students options n_choices mn mx w of
            (Inl e, w1) \<Rightarrow> (Inl e, w1)
          | (Inr unhappy_queue, w1) \<Rightarrow> evict_loop unhappy_queue [0..<length ?uf - ?n] w1"
  have ne: "\<not> ?n < length ?uf"
  proof
    assume lt: "?n < length ?uf"
    then have pos: "0 < length ?uf - ?n" by simp
    obtain r w2 where X: "?X = (r, w2)" by (cases ?X)
    from eviction_fails[OF pos, of students options n_choices mn mx w] X
    obtain e where "r = Inl e" by (cases r) auto
    with X lt assms show False
      by (simp add: assignment_algorithm_base_case_def Let_def)
  qed
  obtain unhappy w3 where sh: "shuffle (list_unmatched_students (match w)) w = (unhappy, w3)"
    by (cases "shuffle (list_unmatched_students (match w)) w")
  let ?Y = "\<lambda>w4. if length unhappy > length ?uf
            then (case shuffle (list_empty_spots (match w4) mn mx) w4 of
                    (empty_spots, w5) \<Rightarrow>
                      fill_spots (drop (length ?uf) unhappy) empty_spots w5)
            else (Inr (), w4)"
  obtain r1 w4 where f1: "fill_underfilled unhappy ?uf w3 = (r1, w4)"
    by (cases "fill_underfilled unhappy ?uf w3")
  obtain r2 w6 where f2: "?Y w4 = (r2, w6)" by (cases "?Y w4")
  obtain r3 w7 where f3: "erase_many unhappy w6 = (r3, w7)" by (cases "erase_many unhappy w6")
  have unfolded: "assignment_algorithm_base_case students options n_choices mn mx w =
     (case r1 of Inl e \<Rightarrow> (Inl e, w4)
      | Inr u \<Rightarrow>
     (case r2 of Inl e \<Rightarrow> (Inl e, w6)
      | Inr u \<Rightarrow>
     (case score_assignment (match w6) students options n_choices mn mx of Inl e \<Rightarrow> (Inl e, w6)
      | Inr score \<Rightarrow>
     (case reduce_to_pairs (match w6) of Inl e \<Rightarrow> (Inl e, w6)
      | Inr pairs \<Rightarrow>
     (case r3 of Inl e \<Rightarrow> (Inl e, w7)
      | Inr u \<Rightarrow> (Inr (pairs, score), w7\<lparr>explored := (pairs, score) # explored w7\<rparr>))))))"
    unfolding assignment_algorithm_base_case_def Let_def
    by (simp only: ne if_False prod.case sum.case sh f1 f2 f3 restore_evicted.simps)
  from assms[unfolded unfolded] have
    r1: "r1 = Inr ()" and r2: "r2 = Inr ()"
    and sc: "score_assignment (match w6) students options n_choices mn mx = Inr score"
    and rp: "reduce_to_pairs (match w6) = Inr pairs"
    and r3: "r3 = Inr ()"
    and w': "w' = w7\<lparr>explored := (pairs, score) # explored w7\<rparr>"
    by (auto split: sum.splits)
  have y: "(length unhappy > length ?uf \<and>
      (\<exists>spots w5. shuffle (list_empty_spots (match w4) mn mx) w4 = (spots, w5) \<and>
         fill_spots (drop (length ?uf) unhappy) spots w5 = (Inr (), w6)))
     \<or> (\<not> length unhappy > length ?uf \<and> w6 = w4)"
    using f2 r2 by (auto split: if_splits prod.splits)
  from ne sh f1 r1 y sc rp f3 r3 w' show ?thesis by blast
qed

lemma base_case_frame:
  assumes wf: "well_formed (match w)"
      and run: "assignment_algorithm_base_case students options n_choices mn mx w = (Inr (pairs, score), w')"
  shows "restored w w' \<and> draws w' = draws w \<and> explored w' = (pairs, score) # explored w"
proof -
  let ?uf = "list_underfilled_options (match w) mn"
  from base_case_Inr[OF run] obtain unhappy w3 w4 w6 w7 where
    sh: "shuffle (list_unmatched_students (match w)) w = (unhappy, w3)"
    and f1: "fill_underfilled unhappy ?uf w3 = (Inr (), w4)"
    and f2: "(length unhappy > length ?uf \<and>
        (\<exists>spots w5. shuffle (list_empty_spots (match w4) mn mx) w4 = (spots, w5) \<and>
           fill_spots (drop (length ?uf) unhappy) spots w5 = (Inr (), w6)))
       \<or> (\<not> length unhappy > length ?uf \<and> w6 = w4)"
    and er: "erase_many unhappy w6 = (Inr (), w7)"
    and w': "w' = w7\<lparr>explored := (pairs, score) # explored w7\<rparr>"
    by blast
  note s = shuffle_effect[OF sh]
  note a = fill_underfilled_effect[OF f1]
  have un: "\<forall>t \<in> set unhappy. map_of (by_student (match w)) t = Some None"
  proof
    fix t assume "t \<in> set unhappy"
    then have "t \<in> set (list_unmatched_students (match w))" using s by (metis mset_eq_setD)
    then have "(t, None) \<in> set (by_student (match w))"
      by (auto simp: list_unmatched_students_def)
    moreover have "distinct (map fst (by_student (match w)))" using wf by (simp add: well_formed_def)
    ultimately show "map_of (by_student (match w)) t = Some None" by simp
  qed
  have b: "evolves (match w4) (match w6) \<and> rest_same w4 w6 \<and>
           student_locked (match w6) = student_locked (match w4) \<and>
           (\<forall>t. t \<notin> set unhappy \<longrightarrow> map_of (by_student (match w6)) t = map_of (by_student (match w4)) t)"
  proof (cases "length unhappy > length ?uf")
    case True
    with f2 obtain spots w5 where sh2: "shuffle (list_empty_spots (match w4) mn mx) w4 = (spots, w5)"
      and fs: "fill_spots (drop (length ?uf) unhappy) spots w5 = (Inr (), w6)" by auto
    note s2 = shuffle_effect[OF sh2]
    note c = fill_spots_effect[OF fs]
    have "\<forall>t. t \<notin> set unhappy \<longrightarrow> t \<notin> set (drop (length ?uf) unhappy)"
      by (meson in_set_dropD)
    with s2 c show ?thesis by (auto simp: rest_same_def)
  next
    case False
    with f2 show ?thesis by auto
  qed
  note d = erase_many_effect[OF er]
  have ev: "evolves (match w) (match w7)"
    using s a b d by (metis evolves_trans)
  have "map_of (by_student (match w7)) = map_of (by_student (match w))"
  proof
    fix t
    show "map_of (by_student (match w7)) t = map_of (by_student (match w)) t"
    proof (cases "t \<in> set unhappy")
      case True
      with d un show ?thesis by simp
    next
      case False
      then have "t \<notin> set (take (length ?uf) unhappy)" by (meson in_set_takeD)
      with False d b a s show ?thesis by simp
    qed
  qed
  moreover have "map_of (student_locked (match w7)) = map_of (student_locked (match w))"
    using s a b d by simp
  ultimately have "restored w w7" using wf ev by (intro restoredI)
  then have "restored w w'" by (simp add: restored_def w')
  moreover have "draws w' = draws w" using s a b d by (simp add: w' rest_same_def)
  moreover have "explored w' = (pairs, score) # explored w" using s a b d by (simp add: w' rest_same_def)
  ultimately show ?thesis by blast
qed

lemma trim_loop_Cons_Inr:
  assumes "trim_loop recurse (trim # trims) best w = (Inr r, w')"
  shows "\<exists>saved w1 locked w2 new w3 w4 best' w5.
     remove_trimmed (concat trim) w = (Inr saved, w1) \<and>
     lock_all_matched w1 = (Inr locked, w2) \<and>
     recurse w2 = (Inr new, w3) \<and>
     unlock_many locked w3 = (Inr (), w4) \<and>
     keep_best new best = Inr best' \<and>
     assign_pairs saved w4 = (Inr (), w5) \<and>
     trim_loop recurse trims best' w5 = (Inr r, w')"
  using assms by (auto split: prod.splits sum.splits)

lemma trim_iteration_frame:
  assumes wf: "well_formed (match w)"
      and rec: "\<And>v r v'. well_formed (match v) \<Longrightarrow> recurse v = (Inr r, v') \<Longrightarrow> restored v v'"
      and 1: "remove_trimmed ss w = (Inr saved, w1)"
      and 2: "lock_all_matched w1 = (Inr locked, w2)"
      and 3: "recurse w2 = (Inr new, w3)"
      and 4: "unlock_many locked w3 = (Inr u, w4)"
      and 5: "assign_pairs saved w4 = (Inr u', w5)"
  shows "restored w w5 \<and> well_formed (match w2)"
proof -
  note a = remove_trimmed_effect[OF 1]
  note b = lock_matched_loop_effect[OF 2[unfolded lock_all_matched_def]]
  have wf1: "well_formed (match w1)" using wf a by (simp add: evolves_def)
  have wf2: "well_formed (match w2)" using wf1 b by (simp add: evolves_def)
  note c = rec[OF wf2 3]
  note d = unlock_many_effect[OF 4]
  note e = assign_pairs_effect[OF 5]
  have ev: "evolves (match w) (match w5)"
    using a b restored_evolves[OF c] d e by (metis evolves_trans)
  have bs3: "map_of (by_student (match w4)) = map_of (by_student (match w1))"
    using b c d by (simp add: restored_def)
  have "map_of (by_student (match w5)) = map_of (by_student (match w))"
  proof
    fix t
    show "map_of (by_student (match w5)) t = map_of (by_student (match w)) t"
    proof (cases "t \<in> set ss")
      case True
      then obtain v where tv: "(t, v) \<in> set saved" using a
        by (metis (no_types, lifting) imageE list.set_map prod.collapse)
      with e have "map_of (by_student (match w5)) t = Some v" by auto
      moreover from tv a have "map_of (by_student (match w)) t = Some v" by auto
      ultimately show ?thesis by simp
    next
      case False
      then have "t \<notin> fst ` set saved" using a by (metis image_set)
      with e have "map_of (by_student (match w5)) t = map_of (by_student (match w4)) t" by simp
      with bs3 a False show ?thesis by simp
    qed
  qed
  moreover have "map_of (student_locked (match w5)) = map_of (student_locked (match w))"
  proof
    fix t
    have "map_of (student_locked (match w4)) t = map_of (student_locked (match w1)) t"
      using b c d by (auto simp: restored_def)
    with a e show "map_of (student_locked (match w5)) t = map_of (student_locked (match w)) t"
      by simp
  qed
  ultimately have "restored w w5" using wf ev by (intro restoredI)
  with wf2 show ?thesis by simp
qed

lemma trim_loop_frame:
  assumes rec: "\<And>v r v'. well_formed (match v) \<Longrightarrow> recurse v = (Inr r, v') \<Longrightarrow> restored v v'"
  shows "well_formed (match w) \<Longrightarrow> trim_loop recurse trims best w = (Inr r, w') \<Longrightarrow> restored w w'"
proof (induction trims arbitrary: best w)
  case Nil
  then show ?case by (simp add: restored_refl)
next
  case (Cons trim trims)
  from trim_loop_Cons_Inr[OF Cons.prems(2)] obtain saved w1 locked w2 new w3 w4 best' w5 where
    s: "remove_trimmed (concat trim) w = (Inr saved, w1)"
       "lock_all_matched w1 = (Inr locked, w2)"
       "recurse w2 = (Inr new, w3)"
       "unlock_many locked w3 = (Inr (), w4)"
       "assign_pairs saved w4 = (Inr (), w5)"
       "trim_loop recurse trims best' w5 = (Inr r, w')"
    by blast
  from trim_iteration_frame[where recurse = recurse, OF Cons.prems(1) _ s(1) s(2) s(3) s(4) s(5)] rec
  have r5: "restored w w5" by simp
  then have "well_formed (match w5)" by (simp add: restored_def)
  from Cons.IH[OF this s(6)] r5 show ?case by (rule restored_trans[rotated])
qed

lemma raa_Inr_stage:
  assumes "stage \<le> n_choices"
      and "recursive_assignment_algorithm students options n_choices mn mx stage w = (Inr r, w')"
  shows "\<exists>assigned w1 iterables w2.
     assign_stage students stage w = (Inr assigned, w1) \<and>
     make_trim_iterables (match w1) (list_overfilled_options (match w1) mx) mx = Inr iterables \<and>
     iterables \<noteq> [] \<and>
     trim_loop (recursive_assignment_algorithm students options n_choices mn mx (stage + 1))
        (product_lists iterables) (None, None) w1 = (Inr r, w2) \<and>
     erase_many assigned w2 = (Inr (), w')"
  using assms
  by (subst (asm) recursive_assignment_algorithm.simps)
     (simp split: prod.splits sum.splits if_splits)

lemma raa_Inr_base:
  assumes "n_choices < stage"
      and "recursive_assignment_algorithm students options n_choices mn mx stage w = (Inr r, w')"
  shows "\<exists>pairs score.
     assignment_algorithm_base_case students options n_choices mn mx w = (Inr (pairs, score), w') \<and>
     r = (Some pairs, Some score)"
  using assms
  by (subst (asm) recursive_assignment_algorithm.simps)
     (auto split: prod.splits sum.splits if_splits)

lemma raa_frame:
  "well_formed (match w) \<Longrightarrow>
   recursive_assignment_algorithm students options n_choices mn mx stage w = (Inr r, w') \<Longrightarrow>
   restored w w'"
proof (induction stage arbitrary: w r w' rule: stage_induct[where n_choices = n_choices])
  case (1 stage)
  from raa_Inr_base[OF "1.hyps" "1.prems"(2)] obtain pairs score where
    "assignment_algorithm_base_case students options n_choices mn mx w = (Inr (pairs, score), w')"
    by blast
  from base_case_frame[OF "1.prems"(1) this] show ?case by simp
next
  case (2 stage)
  from raa_Inr_stage[OF "2.hyps" "2.prems"(2)] obtain assigned w1 iterables w2 where
    s: "assign_stage students stage w = (Inr assigned, w1)"
       "trim_loop (recursive_assignment_algorithm students options n_choices mn mx (stage + 1))
          (product_lists iterables) (None, None) w1 = (Inr r, w2)"
       "erase_many assigned w2 = (Inr (), w')"
    by blast
  note a = assign_stage_effect[OF s(1)]
  have wf1: "well_formed (match w1)" using "2.prems"(1) a by (simp add: evolves_def)
  have b: "restored w1 w2"
    using trim_loop_frame[OF _ wf1 s(2)] "2.IH" by blast
  note c = erase_many_effect[OF s(3)]
  have ev: "evolves (match w) (match w')"
    using a restored_evolves[OF b] c by (metis evolves_trans)
  have "map_of (by_student (match w')) = map_of (by_student (match w))"
  proof
    fix t
    show "map_of (by_student (match w')) t = map_of (by_student (match w)) t"
    proof (cases "t \<in> set assigned")
      case True
      with a c show ?thesis by simp
    next
      case False
      with a b c show ?thesis by (simp add: restored_def)
    qed
  qed
  moreover have "map_of (student_locked (match w')) = map_of (student_locked (match w))"
    using a b c by (simp add: restored_def)
  ultimately show ?case using "2.prems"(1) ev by (intro restoredI)
qed

lemma fold_update_fresh:
  "distinct ks \<Longrightarrow> set ks \<inter> fst ` set d = {} \<Longrightarrow>
   fold (\<lambda>k d. AList.update k v d) ks d = d @ map (\<lambda>k. (k, v)) ks"
proof (induction ks arbitrary: d)
  case Nil
  then show ?case by simp
next
  case (Cons k ks)
  from Cons.prems have k: "k \<notin> fst ` set d" by auto
  then have u: "AList.update k v d = d @ [(k, v)]"
    by (induction d) auto
  have "set ks \<inter> fst ` set (d @ [(k, v)]) = {}" using Cons.prems by auto
  moreover have "distinct ks" using Cons.prems by simp
  ultimately show ?case using Cons.IH[of "d @ [(k, v)]"] u by simp
qed

lemma fold_update_values:
  "\<forall>(k, x) \<in> set d. x = v \<Longrightarrow> \<forall>(k, x) \<in> set (fold (\<lambda>a d. AList.update (f a) v d) xs d). x = v"
proof (induction xs arbitrary: d)
  case Nil
  then show ?case by simp
next
  case (Cons a xs)
  have "\<forall>(k, x) \<in> set (AList.update (f a) v d). x = v"
    using Cons.prems by (induction d) (auto split: if_splits)
  from Cons.IH[OF this] show ?case by simp
qed

lemma fold_update_distinct:
  "distinct (map fst d) \<Longrightarrow> distinct (map fst (fold (\<lambda>a d. AList.update (f a) v d) xs d))"
  by (induction xs arbitrary: d) (auto simp: distinct_update)

lemma Matching_init_well_formed:
  assumes "Matching_init students options = Inr m"
  shows "well_formed m \<and> lock_ok m \<and> cap_ok mx m \<and>
         (\<forall>(s, v) \<in> set (by_student m). v = None) \<and>
         length (by_student m) = length students \<and> length (by_option m) = length options"
proof -
  let ?bs = "fold (\<lambda>st d. AList.update (name st) (None :: string option) d) students []"
  let ?bo = "fold (\<lambda>opt d. AList.update opt ([] :: string list) d) options []"
  let ?lk = "fold (\<lambda>s d. AList.update s False d) (map fst ?bs) []"
  from assms have m: "m = \<lparr>by_student = ?bs, by_option = ?bo, student_locked = ?lk\<rparr>"
    and len: "length ?bs = length students" "length ?bo = length options"
    by (auto simp: Matching_init_def Let_def split: if_splits)
  have d1: "distinct (map fst ?bs)" by (rule fold_update_distinct) simp
  have d2: "distinct (map fst ?bo)"
    using fold_update_distinct[of "[]" "\<lambda>x. x" "[]" options] by simp
  have v1: "\<forall>(k, x) \<in> set ?bs. x = None" by (rule fold_update_values) simp
  have v2: "\<forall>(k, x) \<in> set ?bo. x = []"
    using fold_update_values[of "[]" "[]" "\<lambda>x. x" options] by simp
  have lk: "?lk = map (\<lambda>k. (k, False)) (map fst ?bs)"
    using fold_update_fresh[OF d1, of "[]" False] by simp
  have n1: "map_of ?bs s \<noteq> Some (Some opt)" for s opt
    using v1 by (auto dest!: map_of_SomeD)
  have n2: "map_of ?bo opt = Some xs \<Longrightarrow> xs = []" for opt xs
    using v2 by (auto dest!: map_of_SomeD)
  have n3: "map_of ?lk s \<noteq> Some True" for s
    unfolding lk by (auto dest!: map_of_SomeD)
  have "well_formed m"
    unfolding well_formed_def
  proof (intro conjI allI impI)
    show "distinct (map fst (by_student m))" using d1 by (simp add: m)
    show "distinct (map fst (by_option m))" using d2 by (simp add: m)
    show "map fst (student_locked m) = map fst (by_student m)" by (simp add: m lk comp_def)
  next
    fix opt xs assume "map_of (by_option m) opt = Some xs"
    then have "xs = []" using n2 by (simp add: m)
    then show "distinct xs" and "set xs = {s. map_of (by_student m) s = Some (Some opt)}"
      using n1 by (simp_all add: m)
  next
    fix s opt assume "map_of (by_student m) s = Some (Some opt)"
    then show "opt \<in> fst ` set (by_option m)" using n1 by (simp add: m)
  qed
  moreover have "lock_ok m" unfolding lock_ok_def using n3 by (simp add: m)
  moreover have "cap_ok mx m"
    unfolding cap_ok_def
  proof (intro allI impI)
    fix opt xs assume "map_of (by_option m) opt = Some xs"
    then have "xs = []" using n2 by (simp add: m)
    then show "length xs \<le> mx" by simp
  qed
  ultimately show ?thesis using v1 len by (simp add: m)
qed

text \<open>
  Claim C3. A call of \<^verbatim>\<open>recursive_assignment_algorithm\<close>, at any stage, that starts in a
  well-formed matching and returns, leaves the three dicts as they were: the same
  \<open>by_student\<close> and \<open>student_locked\<close>, and in \<open>by_option\<close> the same options in the same
  order, each with the same set of students. The same holds for a call of the base case
  \<^verbatim>\<open>assignment_algorithm_base_case\<close>. (Every matching the program reaches is well
  formed: \<open>Matching_init_well_formed\<close> and the lemmas \<open>assign_well_formed\<close>,
  \<open>erase_well_formed\<close>, \<open>lock_well_formed\<close> and \<open>unlock_well_formed\<close>.)
\<close>

theorem search_leaves_matching_unchanged:
  "(well_formed (match w) \<and>
    recursive_assignment_algorithm students options n_choices min_per_option max_per_option
      stage w = (Inr r, w')
    \<longrightarrow> same_matching (match w) (match w')) \<and>
   (well_formed (match w) \<and>
    assignment_algorithm_base_case students options n_choices min_per_option max_per_option
      w = (Inr b, w'')
    \<longrightarrow> same_matching (match w) (match w''))"
proof (intro conjI impI)
  assume a: "well_formed (match w) \<and>
    recursive_assignment_algorithm students options n_choices min_per_option max_per_option
      stage w = (Inr r, w')"
  then have "restored w w'" using raa_frame by blast
  with a show "same_matching (match w) (match w')" using restored_same_matching by blast
next
  assume a: "well_formed (match w) \<and>
    assignment_algorithm_base_case students options n_choices min_per_option max_per_option
      w = (Inr b, w'')"
  obtain pairs score where b: "b = (pairs, score)" by (cases b)
  from a b have "restored w w''" using base_case_frame by blast
  with a show "same_matching (match w) (match w'')" using restored_same_matching by blast
qed

theorem search_leaves_matching_unchanged_witness:
  "well_formed example_matching \<and>
   (\<exists>w'. recursive_assignment_algorithm example_students [''X'', ''Y''] 1 1 2 1 (initial_world example_matching (\<lambda>_. 0))
      = (Inr (Some [(''a'', ''Y''), (''b'', ''X''), (''c'', ''X'')], Some [2, 2, 1]), w') \<and>
      same_matching example_matching (match w'))"
proof -
  let ?w = "initial_world example_matching (\<lambda>_. 0)"
  let ?run = "recursive_assignment_algorithm example_students [''X'', ''Y''] 1 1 2 1 ?w"
  have i: "Matching_init example_students [''X'', ''Y''] = Inr example_matching" by code_simp
  have wf: "well_formed (match ?w)"
    using Matching_init_well_formed[OF i] by (simp add: initial_world_def)
  have "fst ?run = Inr (Some [(''a'', ''Y''), (''b'', ''X''), (''c'', ''X'')], Some [2, 2, 1])"
    by code_simp
  then have run: "?run = (Inr (Some [(''a'', ''Y''), (''b'', ''X''), (''c'', ''X'')], Some [2, 2, 1]), snd ?run)"
    by (metis prod.collapse)
  from search_leaves_matching_unchanged[of ?w example_students "[''X'', ''Y'']" 1 1 2 1 _ "snd ?run"] wf run
  have "same_matching (match ?w) (match (snd ?run))" by blast
  with wf run show ?thesis by (auto simp: initial_world_def)
qed

section \<open>Where the code departs from the claims\<close>

text \<open>
  Claim C9 says which queue the resolver builds. The code builds none: the call
  \<^verbatim>\<open>match.list_students_by_option(option)\<close> names a method that class \<^verbatim>\<open>Matching\<close> does not
  have, so \<^verbatim>\<open>find_more_unhappy_students\<close> raises AttributeError whenever \<^verbatim>\<open>options\<close> is not
  empty. Here the search is run on the five students of \<open>five_students\<close>: the matching is
  the one \<^verbatim>\<open>Matching.__init__\<close> builds, the run ends in AttributeError, and so does the
  resolver when called on that first matching directly.
\<close>

theorem eviction_queue_is_never_built:
  "Matching_init five_students [''W'', ''X'', ''Y'', ''Z''] = Inr five_matching \<and>
   fst (recursive_assignment_algorithm five_students [''W'', ''X'', ''Y'', ''Z''] 1 1 2 1
          (initial_world five_matching (\<lambda>_. 0))) = Inl AttributeError \<and>
   fst (find_more_unhappy_students five_students [''W'', ''X'', ''Y'', ''Z''] 1 1 2
          (initial_world five_matching (\<lambda>_. 0))) = Inl AttributeError"
  by code_simp

text \<open>
  Claim C8 says that the old driver starts the count of unhappy students at the number
  of options without votes. The code starts it at the constant 1. For the twelve
  students of \<open>twelve_choices\<close> every option has a vote, so the claimed start is 0, and
  the first round the driver runs is the round for one unhappy student.
\<close>

theorem old_driver_starts_at_one:
  "zero_vote_options twelve_options twelve_choices = 0 \<and>
   initial_n_unhappy_students = 1 \<and>
   old_driver (\<lambda>n. if n = 0 then Inr (Some ''round 0'') else Inr (Some ''round 1'')) 1
     = Some (Inr (1, ''round 1''))"
  by code_simp

section \<open>The lock invariant\<close>

lemma assign_lock_ok: "lock_ok m \<Longrightarrow> assign m s v = Inr m' \<Longrightarrow> lock_ok m'"
  by (drule assign_effect) (auto simp: lock_ok_def update_conv')

lemma erase_lock_ok: "lock_ok m \<Longrightarrow> erase m s = Inr m' \<Longrightarrow> lock_ok m'"
  by (drule erase_effect) (auto simp: lock_ok_def update_conv')

lemma unlock_lock_ok: "lock_ok m \<Longrightarrow> unlock m s = Inr m' \<Longrightarrow> lock_ok m'"
  by (drule unlock_effect) (auto simp: lock_ok_def update_conv')

lemma lock_lock_ok:
  "lock_ok m \<Longrightarrow> \<exists>opt. map_of (by_student m) s = Some (Some opt) \<Longrightarrow> lock m s = Inr m' \<Longrightarrow> lock_ok m'"
  by (drule lock_effect) (auto simp: lock_ok_def update_conv')

lemma mutate_hist_ok:
  assumes "hist_ok w" and "\<And>m'. f (match w) = Inr m' \<Longrightarrow> lock_ok m'"
  shows "hist_ok (snd (mutate f w))"
  using assms by (auto simp: mutate_def hist_ok_def split: sum.splits)

lemma hist_case:
  assumes "hist_ok (snd r)" and "\<And>a w1. r = (Inr a, w1) \<Longrightarrow> hist_ok w1 \<Longrightarrow> hist_ok (snd (g a w1))"
  shows "hist_ok (snd (case r of (Inl e, w1) \<Rightarrow> (Inl e, w1) | (Inr a, w1) \<Rightarrow> g a w1))"
  using assms by (cases r; cases "fst r") auto

lemma hist_case_sum:
  assumes "\<And>e. x = Inl e \<Longrightarrow> hist_ok (snd (h e))" and "\<And>a. x = Inr a \<Longrightarrow> hist_ok (snd (g a))"
  shows "hist_ok (snd (case x of Inl e \<Rightarrow> h e | Inr a \<Rightarrow> g a))"
  using assms by (cases x) auto

lemma hist_case_bool:
  assumes "b \<Longrightarrow> hist_ok (snd x)" and "\<not> b \<Longrightarrow> hist_ok (snd y)"
  shows "hist_ok (snd (case b of True \<Rightarrow> x | False \<Rightarrow> y))"
  using assms by (cases b) auto

lemma hist_if:
  assumes "b \<Longrightarrow> hist_ok (snd x)" and "\<not> b \<Longrightarrow> hist_ok (snd y)"
  shows "hist_ok (snd (if b then x else y))"
  using assms by auto

lemma shuffle_hist_ok: "hist_ok w \<Longrightarrow> hist_ok (snd (shuffle xs w))"
  by (simp add: shuffle_def hist_ok_def)

lemma hist_case_shuffle:
  assumes "hist_ok w" and "\<And>ys w1. hist_ok w1 \<Longrightarrow> hist_ok (snd (g ys w1))"
  shows "hist_ok (snd (case shuffle xs w of (ys, w1) \<Rightarrow> g ys w1))"
  using assms shuffle_hist_ok[of w xs] by (cases "shuffle xs w") auto

lemma assign_hist_ok: "hist_ok w \<Longrightarrow> hist_ok (snd (mutate (\<lambda>m. assign m s v) w))"
  by (rule mutate_hist_ok) (auto simp: hist_ok_def intro: assign_lock_ok)

lemma erase_hist_ok: "hist_ok w \<Longrightarrow> hist_ok (snd (mutate (\<lambda>m. erase m s) w))"
  by (rule mutate_hist_ok) (auto simp: hist_ok_def intro: erase_lock_ok)

lemma unlock_hist_ok: "hist_ok w \<Longrightarrow> hist_ok (snd (mutate (\<lambda>m. unlock m s) w))"
  by (rule mutate_hist_ok) (auto simp: hist_ok_def intro: unlock_lock_ok)

lemma lock_hist_ok:
  "hist_ok w \<Longrightarrow> \<exists>opt. map_of (by_student (match w)) s = Some (Some opt) \<Longrightarrow>
   hist_ok (snd (mutate (\<lambda>m. lock m s) w))"
  by (rule mutate_hist_ok) (auto simp: hist_ok_def intro: lock_lock_ok)

lemma assign_pairs_hist_ok: "hist_ok w \<Longrightarrow> hist_ok (snd (assign_pairs ps w))"
proof (induction ps arbitrary: w)
  case Nil
  then show ?case by simp
next
  case (Cons p ps)
  obtain s v where p: "p = (s, v)" by (cases p)
  show ?case unfolding p assign_pairs.simps
    by (rule hist_case) (auto intro: assign_hist_ok Cons)
qed

lemma erase_many_hist_ok: "hist_ok w \<Longrightarrow> hist_ok (snd (erase_many ss w))"
proof (induction ss arbitrary: w)
  case Nil
  then show ?case by simp
next
  case (Cons s ss)
  show ?case unfolding erase_many.simps
    by (rule hist_case) (auto intro: erase_hist_ok Cons)
qed

lemma unlock_many_hist_ok: "hist_ok w \<Longrightarrow> hist_ok (snd (unlock_many ss w))"
proof (induction ss arbitrary: w)
  case Nil
  then show ?case by simp
next
  case (Cons s ss)
  show ?case unfolding unlock_many.simps
    by (rule hist_case) (auto intro: unlock_hist_ok Cons)
qed

lemma is_matched_True:
  "is_matched m s = Inr True \<Longrightarrow> \<exists>opt. map_of (by_student m) s = Some (Some opt)"
  by (auto simp: is_matched_def split: option.splits)

lemma lock_matched_loop_hist_ok: "hist_ok w \<Longrightarrow> hist_ok (snd (lock_matched_loop ks w))"
proof (induction ks arbitrary: w)
  case Nil
  then show ?case by simp
next
  case (Cons s ks)
  show ?case unfolding lock_matched_loop.simps
  proof (intro hist_case_sum hist_case_bool hist_case)
    show "hist_ok (snd (mutate (\<lambda>m. lock m s) w))"
      if "is_matched (match w) s = Inr a" "a" for a
      using that Cons.prems by (auto intro!: lock_hist_ok is_matched_True)
  qed (auto intro: Cons)
qed

lemma lock_all_matched_hist_ok: "hist_ok w \<Longrightarrow> hist_ok (snd (lock_all_matched w))"
  by (simp add: lock_all_matched_def lock_matched_loop_hist_ok)

lemma fill_underfilled_hist_ok: "hist_ok w \<Longrightarrow> hist_ok (snd (fill_underfilled ss opts w))"
proof (induction ss opts w rule: fill_underfilled.induct)
  case (3 s ss opt opts w)
  show ?case unfolding fill_underfilled.simps
    by (rule hist_case) (auto intro: assign_hist_ok "3.prems" "3.IH")
qed auto

lemma fill_spots_hist_ok: "hist_ok w \<Longrightarrow> hist_ok (snd (fill_spots ss spots w))"
proof (induction ss spots w rule: fill_spots.induct)
  case (3 s ss spot spots w)
  show ?case unfolding fill_spots.simps
    by (rule hist_case) (auto intro: assign_hist_ok "3.prems" "3.IH")
qed auto

lemma mutate_assign_matched:
  "mutate (\<lambda>m. assign m s v) w = (Inr u, w1) \<Longrightarrow> \<exists>opt. map_of (by_student (match w1)) s = Some (Some opt)"
  using mutate_assign[of s v w u w1] by auto

lemma restore_evicted_hist_ok: "hist_ok w \<Longrightarrow> hist_ok (snd (restore_evicted ps w))"
proof (induction ps arbitrary: w)
  case Nil
  then show ?case by simp
next
  case (Cons p ps)
  obtain s v where p: "p = (s, v)" by (cases p)
  show ?case unfolding p restore_evicted.simps
  proof (intro hist_case)
    show "hist_ok (snd (mutate (\<lambda>m. assign m s v) w))" using Cons.prems by (rule assign_hist_ok)
    show "hist_ok (snd (mutate (\<lambda>m. lock m s) w1))"
      if "mutate (\<lambda>m. assign m s v) w = (Inr a, w1)" "hist_ok w1" for a w1
      using that by (auto intro!: lock_hist_ok mutate_assign_matched)
  qed (auto intro: Cons.IH)
qed

lemma evict_loop_hist_ok: "hist_ok w \<Longrightarrow> hist_ok (snd (evict_loop queue is w))"
proof (induction "is" arbitrary: w)
  case Nil
  then show ?case by simp
next
  case (Cons i rest)
  show ?case unfolding evict_loop.simps
    by (intro hist_if hist_case hist_case_sum)
       (auto intro: unlock_hist_ok erase_hist_ok Cons)
qed

lemma find_more_hist_ok:
  "hist_ok w \<Longrightarrow> hist_ok (snd (find_more_unhappy_students students options n_choices mn mx w))"
  unfolding find_more_unhappy_students_def
  by (intro hist_case_sum hist_if hist_case_shuffle) auto

lemma remove_trimmed_hist_ok: "hist_ok w \<Longrightarrow> hist_ok (snd (remove_trimmed ss w))"
proof (induction ss arbitrary: w)
  case Nil
  then show ?case by simp
next
  case (Cons s ss)
  show ?case unfolding remove_trimmed.simps
    by (intro hist_case hist_case_sum) (auto intro: erase_hist_ok Cons)
qed

lemma assign_stage_hist_ok: "hist_ok w \<Longrightarrow> hist_ok (snd (assign_stage sts stage w))"
proof (induction sts arbitrary: w)
  case Nil
  then show ?case by simp
next
  case (Cons st sts)
  show ?case unfolding assign_stage.simps
    by (intro hist_case hist_case_sum hist_case_bool) (auto intro: assign_hist_ok Cons)
qed

lemma hist_ok_explored [simp]: "hist_ok (w\<lparr>explored := x\<rparr>) = hist_ok w"
  by (simp add: hist_ok_def)

lemma base_case_hist_ok:
  "hist_ok w \<Longrightarrow> hist_ok (snd (assignment_algorithm_base_case students options n_choices mn mx w))"
  unfolding assignment_algorithm_base_case_def Let_def
  by (intro hist_case hist_case_sum hist_if hist_case_shuffle)
     (auto intro: find_more_hist_ok evict_loop_hist_ok fill_underfilled_hist_ok fill_spots_hist_ok
        erase_many_hist_ok restore_evicted_hist_ok)

lemma trim_loop_hist_ok:
  assumes "\<And>v. hist_ok v \<Longrightarrow> hist_ok (snd (recurse v))"
  shows "hist_ok w \<Longrightarrow> hist_ok (snd (trim_loop recurse trims best w))"
proof (induction trims arbitrary: best w)
  case Nil
  then show ?case by simp
next
  case (Cons trim trims)
  show ?case unfolding trim_loop.simps
    by (intro hist_case hist_case_sum)
       (auto intro: remove_trimmed_hist_ok lock_all_matched_hist_ok assms unlock_many_hist_ok
          assign_pairs_hist_ok Cons)
qed

lemma raa_hist_ok:
  "hist_ok w \<Longrightarrow>
   hist_ok (snd (recursive_assignment_algorithm students options n_choices mn mx stage w))"
proof (induction stage arbitrary: w rule: stage_induct[where n_choices = n_choices])
  case (1 stage)
  have "hist_ok (snd (case assignment_algorithm_base_case students options n_choices mn mx w of
              (Inl e, w1) \<Rightarrow> (Inl e, w1)
            | (Inr (pairs, score), w1) \<Rightarrow> (Inr (Some pairs, Some score), w1)))"
    using base_case_hist_ok[OF "1.prems", of students options n_choices mn mx]
    by (auto split: prod.splits sum.splits)
  with "1.hyps" show ?case by (subst recursive_assignment_algorithm.simps) simp
next
  case (2 stage)
  have ih: "hist_ok (snd (recursive_assignment_algorithm students options n_choices mn mx (Suc stage) v))"
    if "hist_ok v" for v
    using "2.IH"[OF that] by simp
  have "hist_ok (snd (case assign_stage students stage w of (Inl e, w1) \<Rightarrow> (Inl e, w1)
      | (Inr assigned_students, w1) \<Rightarrow>
     (case make_trim_iterables (match w1)
             (list_overfilled_options (match w1) mx) mx of
        Inl e \<Rightarrow> (Inl e, w1)
      | Inr trim_iterables \<Rightarrow>
          if \<not> length trim_iterables > 0 then (Inl TypeError, w1)
          else
     (case trim_loop
             (recursive_assignment_algorithm students options n_choices mn mx (stage + 1))
             (product_lists trim_iterables) (None, None) w1 of
        (Inl e, w2) \<Rightarrow> (Inl e, w2)
      | (Inr best, w2) \<Rightarrow>
     (case erase_many assigned_students w2 of (Inl e, w3) \<Rightarrow> (Inl e, w3)
      | (Inr u, w3) \<Rightarrow> (Inr best, w3))))))"
    by (intro hist_case hist_case_sum hist_if)
       (auto intro: assign_stage_hist_ok "2.prems" trim_loop_hist_ok ih erase_many_hist_ok)
  with "2.hyps" show ?case by (subst recursive_assignment_algorithm.simps) simp
qed

text \<open>
  Claim C10. The search is started, at any stage, on the matching that \<^verbatim>\<open>Matching.__init__\<close>
  builds (all students unmatched and unlocked), with any random source. Whether the run
  returns or raises, in the initial matching and in every matching recorded in the
  history, that is after every successful \<^verbatim>\<open>assign\<close>, \<^verbatim>\<open>erase\<close>, \<^verbatim>\<open>lock\<close> and \<^verbatim>\<open>unlock\<close> of the
  run, every student whose lock flag is true is matched to an option.
\<close>

theorem locked_students_are_matched:
  assumes "Matching_init students options = Inr m"
  shows "\<forall>m' \<in> set (match (initial_world m rnd) #
                    history (snd (recursive_assignment_algorithm students options n_choices
                       min_per_option max_per_option stage (initial_world m rnd)))).
           lock_ok m'"
proof -
  have "hist_ok (initial_world m rnd)"
    using Matching_init_well_formed[OF assms] by (simp add: hist_ok_def initial_world_def)
  from raa_hist_ok[OF this, of students options n_choices min_per_option max_per_option stage]
    Matching_init_well_formed[OF assms]
  show ?thesis by (auto simp: hist_ok_def initial_world_def)
qed

theorem locked_students_are_matched_witness:
  "Matching_init example_students [''X'', ''Y''] = Inr example_matching \<and>
   list_all lock_ok
     (match (initial_world example_matching (\<lambda>_. 0)) #
      history (snd (recursive_assignment_algorithm example_students [''X'', ''Y''] 1 1 2 1
                      (initial_world example_matching (\<lambda>_. 0))))) \<and>
   length (history (snd (recursive_assignment_algorithm example_students [''X'', ''Y''] 1 1 2 1
                      (initial_world example_matching (\<lambda>_. 0))))) = 30"
proof -
  have i: "Matching_init example_students [''X'', ''Y''] = Inr example_matching" by code_simp
  have l: "length (history (snd (recursive_assignment_algorithm example_students [''X'', ''Y''] 1 1 2 1
                      (initial_world example_matching (\<lambda>_. 0))))) = 30"
    by code_simp
  from locked_students_are_matched[OF i, of "\<lambda>_. 0" 1 1 2 1] i l
  show ?thesis by (simp only: list_all_iff simp_thms)
qed

section \<open>The best explored score\<close>

lemma base_case_explored:
  assumes run: "assignment_algorithm_base_case students options n_choices mn mx w = (Inr (pairs, score), w')"
  shows "explored w' = (pairs, score) # explored w"
proof -
  let ?uf = "list_underfilled_options (match w) mn"
  from base_case_Inr[OF run] obtain unhappy w3 w4 w6 w7 where
    sh: "shuffle (list_unmatched_students (match w)) w = (unhappy, w3)"
    and f1: "fill_underfilled unhappy ?uf w3 = (Inr (), w4)"
    and f2: "(length unhappy > length ?uf \<and>
        (\<exists>spots w5. shuffle (list_empty_spots (match w4) mn mx) w4 = (spots, w5) \<and>
           fill_spots (drop (length ?uf) unhappy) spots w5 = (Inr (), w6)))
       \<or> (\<not> length unhappy > length ?uf \<and> w6 = w4)"
    and er: "erase_many unhappy w6 = (Inr (), w7)"
    and w': "w' = w7\<lparr>explored := (pairs, score) # explored w7\<rparr>"
    by blast
  have "rest_same w w3" using shuffle_effect[OF sh] by simp
  moreover have "rest_same w3 w4" using fill_underfilled_effect[OF f1] by simp
  moreover have "rest_same w4 w6"
    using f2 by (auto dest!: shuffle_effect fill_spots_effect simp: rest_same_def)
  moreover have "rest_same w6 w7" using erase_many_effect[OF er] by simp
  ultimately show ?thesis by (simp add: w' rest_same_def)
qed

lemma trim_iteration_explored:
  assumes 1: "remove_trimmed ss w = (Inr saved, w1)"
      and 2: "lock_all_matched w1 = (Inr locked, w2)"
      and 4: "unlock_many locked w3 = (Inr u, w4)"
      and 5: "assign_pairs saved w4 = (Inr u', w5)"
  shows "explored w2 = explored w \<and> explored w5 = explored w3"
  using remove_trimmed_effect[OF 1] lock_matched_loop_effect[OF 2[unfolded lock_all_matched_def]]
     unlock_many_effect[OF 4] assign_pairs_effect[OF 5]
  by (simp add: rest_same_def)

lemma keep_best_cases:
  assumes "keep_best new best = Inr best'"
  shows "(snd best = None \<and> best' = new) \<or>
         (\<exists>b nb. snd best = Some b \<and> snd new = Some nb \<and> best' = (if nb > b then new else best))"
  using assms by (auto simp: keep_best_def split: option.splits)

lemma dominates_Nil: "dominates (None, None) []"
  by (simp add: dominates_def)

lemma trim_loop_explores:
  assumes rec: "\<And>v r v'. recurse v = (Inr r, v') \<Longrightarrow> explores v r v'"
  shows "trim_loop recurse trims best w = (Inr r, w') \<Longrightarrow>
         explored w = old @ base \<Longrightarrow> dominates best old \<Longrightarrow>
         (\<exists>new. explored w' = new @ base \<and> dominates r new)"
proof (induction trims arbitrary: best w old)
  case Nil
  then show ?case by auto
next
  case (Cons trim trims)
  from trim_loop_Cons_Inr[OF Cons.prems(1)] obtain saved w1 locked w2 new w3 w4 best' w5 where
    s: "remove_trimmed (concat trim) w = (Inr saved, w1)"
       "lock_all_matched w1 = (Inr locked, w2)"
       "recurse w2 = (Inr new, w3)"
       "unlock_many locked w3 = (Inr (), w4)"
       "keep_best new best = Inr best'"
       "assign_pairs saved w4 = (Inr (), w5)"
       "trim_loop recurse trims best' w5 = (Inr r, w')"
    by blast
  from trim_iteration_explored[OF s(1) s(2) s(4) s(6)]
  have e: "explored w2 = explored w" "explored w5 = explored w3" by simp_all
  from rec[OF s(3)] obtain fresh where
    f: "explored w3 = fresh @ explored w2" "dominates new fresh"
    by (auto simp: explores_def)
  have ex5: "explored w5 = (fresh @ old) @ base" using e f Cons.prems(2) by simp
  have dom: "dominates best' (fresh @ old)"
  proof -
    from keep_best_cases[OF s(5)] show ?thesis
    proof (elim disjE conjE exE)
      assume n: "snd best = None" and b: "best' = new"
      from n Cons.prems(3) have "old = []"
        by (cases old) (auto simp: dominates_def)
      with f(2) b show ?thesis by simp
    next
      fix b nb assume sb: "snd best = Some b" and sn: "snd new = Some nb"
        and b': "best' = (if nb > b then new else best)"
      have o: "list_all (\<lambda>(pairs, score). score \<le> b) old"
        and f1: "list_all (\<lambda>(pairs, score). score \<le> nb) fresh"
        using Cons.prems(3) f(2) sb sn by (auto simp: dominates_def)
      from sb Cons.prems(3) have bo: "case best of (Some pairs, Some b) \<Rightarrow> (pairs, b) \<in> set old | _ \<Rightarrow> False"
        by (auto simp: dominates_def)
      from sn f(2) have nf: "case new of (Some pairs, Some b) \<Rightarrow> (pairs, b) \<in> set fresh | _ \<Rightarrow> False"
        by (auto simp: dominates_def)
      show ?thesis
      proof (cases "nb > b")
        case True
        then have "list_all (\<lambda>(pairs, score). score \<le> nb) old"
          using o by (auto simp: list_all_iff)
        with f1 True b' sn nf show ?thesis
          by (auto simp: dominates_def split: option.splits prod.splits)
      next
        case False
        then have "list_all (\<lambda>(pairs, score). score \<le> b) fresh"
          using f1 by (auto simp: list_all_iff)
        with o False b' sb bo show ?thesis
          by (auto simp: dominates_def split: option.splits prod.splits)
      qed
    qed
  qed
  from Cons.IH[OF s(7) ex5 dom] show ?case .
qed

lemma raa_explores:
  "recursive_assignment_algorithm students options n_choices mn mx stage w = (Inr r, w') \<Longrightarrow>
   explores w r w'"
proof (induction stage arbitrary: w r w' rule: stage_induct[where n_choices = n_choices])
  case (1 stage)
  from raa_Inr_base[OF "1.hyps" "1.prems"] obtain pairs score where
    b: "assignment_algorithm_base_case students options n_choices mn mx w = (Inr (pairs, score), w')"
    and r: "r = (Some pairs, Some score)"
    by blast
  from base_case_explored[OF b] r show ?case
    by (auto simp: explores_def dominates_def)
next
  case (2 stage)
  from raa_Inr_stage[OF "2.hyps" "2.prems"] obtain assigned w1 iterables w2 where
    s: "assign_stage students stage w = (Inr assigned, w1)"
       "trim_loop (recursive_assignment_algorithm students options n_choices mn mx (stage + 1))
          (product_lists iterables) (None, None) w1 = (Inr r, w2)"
       "erase_many assigned w2 = (Inr (), w')"
    by blast
  have e1: "explored w1 = [] @ explored w"
    using assign_stage_effect[OF s(1)] by (simp add: rest_same_def)
  have e2: "explored w' = explored w2"
    using erase_many_effect[OF s(3)] by (simp add: rest_same_def)
  from trim_loop_explores[OF _ s(2) e1 dominates_Nil] "2.IH" e2
  show ?case by (auto simp: explores_def)
qed



section \<open>Completeness of the returned pair list\<close>

lemma finite_matched: "finite {s. map_of al s = Some v}"
proof -
  have "{s. map_of al s = Some v} \<subseteq> dom (map_of al)" by auto
  then show ?thesis using finite_dom_map_of finite_subset by blast
qed

lemma occupancy_length:
  assumes "well_formed m" and "map_of (by_option m) opt = Some xs"
  shows "length xs = occupancy m opt"
proof -
  from assms have "distinct xs" "set xs = {s. map_of (by_student m) s = Some (Some opt)}"
    unfolding well_formed_def by blast+
  then show ?thesis by (metis distinct_card occupancy_def)
qed

lemma occupancy_nonkey:
  assumes "well_formed m" and "map_of (by_option m) opt = None"
  shows "occupancy m opt = 0"
proof -
  have "{s. map_of (by_student m) s = Some (Some opt)} = {}"
  proof (rule ccontr)
    assume "{s. map_of (by_student m) s = Some (Some opt)} \<noteq> {}"
    then obtain s where "map_of (by_student m) s = Some (Some opt)" by auto
    with assms(1) have "opt \<in> fst ` set (by_option m)" unfolding well_formed_def by blast
    with assms(2) show False by (simp add: in_keys_iff)
  qed
  then show ?thesis by (simp add: occupancy_def)
qed

lemma cap_ok_occupancy:
  assumes "well_formed m"
  shows "cap_ok mx m \<longleftrightarrow> (\<forall>opt. occupancy m opt \<le> mx)"
proof
  assume c: "cap_ok mx m"
  show "\<forall>opt. occupancy m opt \<le> mx"
  proof
    fix opt
    show "occupancy m opt \<le> mx"
    proof (cases "map_of (by_option m) opt")
      case None
      with assms show ?thesis by (simp add: occupancy_nonkey)
    next
      case (Some xs)
      with assms c show ?thesis by (metis occupancy_length cap_ok_def)
    qed
  qed
next
  assume "\<forall>opt. occupancy m opt \<le> mx"
  with assms show "cap_ok mx m" unfolding cap_ok_def by (metis occupancy_length)
qed

lemma occupancy_by_student:
  "by_student m' = by_student m \<Longrightarrow> occupancy m' = occupancy m"
  by (rule ext) (simp add: occupancy_def)

lemma occupancy_map_of:
  "map_of (by_student m') = map_of (by_student m) \<Longrightarrow> occupancy m' = occupancy m"
  by (rule ext) (simp add: occupancy_def)

lemma occupancy_assign:
  assumes "map_of (by_student m) s = Some None"
      and "map_of (by_student m') = (map_of (by_student m))(s \<mapsto> Some opt)"
  shows "occupancy m' o' = occupancy m o' + (if o' = opt then 1 else 0)"
proof (cases "o' = opt")
  case True
  have "{t. map_of (by_student m') t = Some (Some opt)}
        = insert s {t. map_of (by_student m) t = Some (Some opt)}"
    using assms by auto
  moreover have "s \<notin> {t. map_of (by_student m) t = Some (Some opt)}" using assms by simp
  ultimately show ?thesis using True finite_matched[of "by_student m" "Some opt"]
    by (simp add: occupancy_def)
next
  case False
  have "{t. map_of (by_student m') t = Some (Some o')} = {t. map_of (by_student m) t = Some (Some o')}"
    using assms False by auto
  with False show ?thesis by (simp add: occupancy_def)
qed

lemma occupancy_erase:
  assumes "map_of (by_student m) s = Some (Some opt)"
      and "map_of (by_student m') = (map_of (by_student m))(s \<mapsto> None)"
  shows "occupancy m' o' = occupancy m o' - (if o' = opt then 1 else 0)"
proof (cases "o' = opt")
  case True
  have "{t. map_of (by_student m') t = Some (Some opt)}
        = {t. map_of (by_student m) t = Some (Some opt)} - {s}"
    using assms by auto
  moreover have "s \<in> {t. map_of (by_student m) t = Some (Some opt)}" using assms by simp
  ultimately show ?thesis using True finite_matched[of "by_student m" "Some opt"]
    by (simp add: occupancy_def)
next
  case False
  have "{t. map_of (by_student m') t = Some (Some o')} = {t. map_of (by_student m) t = Some (Some o')}"
    using assms False by auto
  with False show ?thesis by (simp add: occupancy_def)
qed

lemma fill_underfilled_occupancy:
  "fill_underfilled unhappy opts w = (Inr u, w') \<Longrightarrow>
     occupancy (match w') o' = occupancy (match w) o' + count_list opts o'"
proof (induction unhappy opts w rule: fill_underfilled.induct)
  case (1 unhappy w)
  then show ?case by auto
next
  case (2 opt opts w)
  then show ?case by simp
next
  case (3 s ss opt opts w)
  from "3.prems" obtain u1 w1 where
    1: "mutate (\<lambda>m. assign m s (Some opt)) w = (Inr u1, w1)"
    and 2: "fill_underfilled ss opts w1 = (Inr u, w')"
    by (auto split: prod.splits sum.splits)
  note e = mutate_assign[OF 1]
  have "occupancy (match w1) o' = occupancy (match w) o' + (if o' = opt then 1 else 0)"
    using e by (intro occupancy_assign) auto
  with "3.IH"[OF 1[symmetric] refl 2] show ?case by simp
qed

lemma fill_spots_occupancy:
  "fill_spots ss spots w = (Inr u, w') \<Longrightarrow>
     occupancy (match w') o' = occupancy (match w) o' + count_list (take (length ss) spots) o'"
proof (induction ss spots w rule: fill_spots.induct)
  case (1 spots w)
  then show ?case by auto
next
  case (2 s ss w)
  then show ?case by simp
next
  case (3 s ss spot spots w)
  from "3.prems" obtain u1 w1 where
    1: "mutate (\<lambda>m. assign m s (Some spot)) w = (Inr u1, w1)"
    and 2: "fill_spots ss spots w1 = (Inr u, w')"
    by (auto split: prod.splits sum.splits)
  note e = mutate_assign[OF 1]
  have "occupancy (match w1) o' = occupancy (match w) o' + (if o' = spot then 1 else 0)"
    using e by (intro occupancy_assign) auto
  with "3.IH"[OF 1[symmetric] refl 2] show ?case by simp
qed

lemma remove_trimmed_occupancy:
  "remove_trimmed ss w = (Inr saved, w') \<Longrightarrow>
     occupancy (match w') o' =
       occupancy (match w) o' - length (filter (\<lambda>s. map_of (by_student (match w)) s = Some (Some o')) ss)"
proof (induction ss arbitrary: w saved)
  case Nil
  then show ?case by auto
next
  case (Cons s ss)
  from Cons.prems obtain v u1 w1 rest where
    1: "mutate (\<lambda>m. erase m s) w = (Inr u1, w1)"
    and 2: "remove_trimmed ss w1 = (Inr rest, w')"
    by (auto split: prod.splits sum.splits)
  note e = mutate_erase[OF 1]
  from e obtain opt where opt: "map_of (by_student (match w)) s = Some (Some opt)" by blast
  have o1: "occupancy (match w1) o' = occupancy (match w) o' - (if o' = opt then 1 else 0)"
    using e opt by (intro occupancy_erase) auto
  note r = remove_trimmed_effect[OF 2]
  note d = remove_trimmed_effect[OF Cons.prems]
  have ns: "s \<notin> set ss" using d by simp
  have "filter (\<lambda>t. map_of (by_student (match w1)) t = Some (Some o')) ss
        = filter (\<lambda>t. map_of (by_student (match w)) t = Some (Some o')) ss"
    using e ns by (intro filter_cong) auto
  with Cons.IH[OF 2] o1 opt show ?case by auto
qed

lemma count_list_take_le: "count_list (take k xs) x \<le> count_list xs x"
proof (induction xs arbitrary: k)
  case Nil
  then show ?case by simp
next
  case (Cons a xs)
  show ?case using Cons.IH[of "k - 1"] by (cases k) auto
qed

lemma count_list_mset: "mset xs = mset ys \<Longrightarrow> count_list xs x = count_list ys x"
  by (metis count_mset count_list_eq_length_filter)

lemma count_list_replicate: "count_list (replicate n x) y = (if x = y then n else 0)"
  by (induction n) auto

lemma count_empty_spots_aux:
  "distinct (map fst bo) \<Longrightarrow>
   count_list (concat (map (\<lambda>(opt, xs). if lo \<le> length xs \<and> length xs < hi
                               then replicate (hi - length xs) opt else []) bo)) opt =
     (case map_of bo opt of None \<Rightarrow> 0
      | Some xs \<Rightarrow> if lo \<le> length xs \<and> length xs < hi then hi - length xs else 0)"
proof (induction bo)
  case Nil
  then show ?case by simp
next
  case (Cons p bo)
  obtain k ys where p: "p = (k, ys)" by (cases p)
  from Cons.prems p have k: "map_of bo k = None" by (simp add: map_of_eq_None_iff)
  from Cons.prems have "distinct (map fst bo)" by simp
  from Cons.IH[OF this] k show ?case by (auto simp: p count_list_append count_list_replicate split: option.splits)
qed

lemma count_list_underfilled:
  assumes "well_formed m"
  shows "count_list (list_underfilled_options m mn) opt =
     (if opt \<in> fst ` set (by_option m) then mn - occupancy m opt else 0)"
proof -
  have d: "distinct (map fst (by_option m))" using assms by (simp add: well_formed_def)
  have "count_list (list_underfilled_options m mn) opt = count (mset (list_underfilled_options m mn)) opt"
    by (simp add: count_mset count_list_eq_length_filter)
  also have "\<dots> = (case map_of (by_option m) opt of None \<Rightarrow> 0 | Some xs \<Rightarrow> mn - length xs)"
    by (rule list_underfilled_options_count[OF d])
  also have "\<dots> = (if opt \<in> fst ` set (by_option m) then mn - occupancy m opt else 0)"
    using assms by (auto simp: in_keys_iff occupancy_length split: option.splits)
  finally show ?thesis .
qed

lemma count_list_empty_spots:
  assumes "well_formed m"
  shows "count_list (list_empty_spots m mn mx) opt =
     (if opt \<in> fst ` set (by_option m) \<and> mn \<le> occupancy m opt \<and> occupancy m opt < mx
      then mx - occupancy m opt else 0)"
proof -
  have d: "distinct (map fst (by_option m))" using assms by (simp add: well_formed_def)
  show ?thesis
    unfolding list_empty_spots_def count_empty_spots_aux[OF d]
    using assms by (auto simp: in_keys_iff occupancy_length split: option.splits)
qed

lemma reduce_pairs_Inr:
  "reduce_pairs bs = Inr pairs \<Longrightarrow>
     map fst pairs = map fst bs \<and>
     count_list (map snd pairs) opt = length (filter (\<lambda>(s, v). v = Some opt) bs)"
  by (induction bs arbitrary: pairs rule: reduce_pairs.induct) (auto split: sum.splits)

lemma card_matched:
  "distinct (map fst bs) \<Longrightarrow> card {s. map_of bs s = Some v} = length (filter (\<lambda>(s, x). x = v) bs)"
proof (induction bs)
  case Nil
  then show ?case by simp
next
  case (Cons p bs)
  obtain k x where p: "p = (k, x)" by (cases p)
  from Cons.prems p have k: "map_of bs k = None" and d: "distinct (map fst bs)"
    by (simp_all add: map_of_eq_None_iff)
  show ?case
  proof (cases "x = v")
    case True
    have "{s. map_of (p # bs) s = Some v} = insert k {s. map_of bs s = Some v}"
      using True p by auto
    moreover have "k \<notin> {s. map_of bs s = Some v}" using k by simp
    ultimately show ?thesis using Cons.IH[OF d] True p finite_matched[of bs v] by simp
  next
    case False
    have "{s. map_of (p # bs) s = Some v} = {s. map_of bs s = Some v}"
      using False p k by auto
    then show ?thesis using Cons.IH[OF d] False p by simp
  qed
qed

lemma reduce_to_pairs_occupancy:
  assumes "well_formed m" and "reduce_to_pairs m = Inr pairs"
  shows "map fst pairs = map fst (by_student m) \<and>
         count_list (map snd pairs) opt = occupancy m opt"
proof -
  have d: "distinct (map fst (by_student m))" using assms(1) by (simp add: well_formed_def)
  from reduce_pairs_Inr[OF assms(2)[unfolded reduce_to_pairs_def], of opt] card_matched[OF d, of "Some opt"]
  show ?thesis by (simp add: occupancy_def)
qed

lemma base_case_good:
  assumes wf: "well_formed (match w)" and cap: "cap_ok mx (match w)" and mm: "mn \<le> mx"
      and run: "assignment_algorithm_base_case students options n_choices mn mx w = (Inr (pairs, score), w')"
  shows "good_pairs (map fst (by_student (match w))) (map fst (by_option (match w))) mn mx pairs"
proof -
  let ?uf = "list_underfilled_options (match w) mn"
  from base_case_Inr[OF run] obtain unhappy w3 w4 w6 w7 where
    sh: "shuffle (list_unmatched_students (match w)) w = (unhappy, w3)"
    and f1: "fill_underfilled unhappy ?uf w3 = (Inr (), w4)"
    and f2: "(length unhappy > length ?uf \<and>
        (\<exists>spots w5. shuffle (list_empty_spots (match w4) mn mx) w4 = (spots, w5) \<and>
           fill_spots (drop (length ?uf) unhappy) spots w5 = (Inr (), w6)))
       \<or> (\<not> length unhappy > length ?uf \<and> w6 = w4)"
    and rp: "reduce_to_pairs (match w6) = Inr pairs"
    by blast
  note s = shuffle_effect[OF sh]
  note a = fill_underfilled_effect[OF f1]
  have wf4: "well_formed (match w4)" using wf s a by (simp add: evolves_def)
  have k4: "map fst (by_option (match w4)) = map fst (by_option (match w))"
           "map fst (by_student (match w4)) = map fst (by_student (match w))"
    using s a by (simp_all add: evolves_def)
  have keys4: "fst ` set (by_option (match w4)) = fst ` set (by_option (match w))"
    using k4(1) by (metis image_set)
  have capw: "occupancy (match w) opt \<le> mx" for opt
    using cap wf by (simp add: cap_ok_occupancy)
  have o4: "occupancy (match w4) opt = occupancy (match w) opt + count_list ?uf opt" for opt
    using fill_underfilled_occupancy[OF f1] s by simp
  have lo4: "mn \<le> occupancy (match w4) opt" if "opt \<in> fst ` set (by_option (match w))" for opt
    using o4[of opt] that by (simp add: count_list_underfilled[OF wf])
  have hi4: "occupancy (match w4) opt \<le> mx" for opt
    using o4[of opt] capw[of opt] mm
    by (cases "opt \<in> fst ` set (by_option (match w))") (simp_all add: count_list_underfilled[OF wf])
  have b: "well_formed (match w6) \<and>
           map fst (by_option (match w6)) = map fst (by_option (match w)) \<and>
           map fst (by_student (match w6)) = map fst (by_student (match w)) \<and>
           (\<forall>opt. occupancy (match w4) opt \<le> occupancy (match w6) opt \<and> occupancy (match w6) opt \<le> mx)"
  proof (cases "length unhappy > length ?uf")
    case True
    with f2 obtain spots w5 where sh2: "shuffle (list_empty_spots (match w4) mn mx) w4 = (spots, w5)"
      and fs: "fill_spots (drop (length ?uf) unhappy) spots w5 = (Inr (), w6)" by auto
    note s2 = shuffle_effect[OF sh2]
    note c = fill_spots_effect[OF fs]
    have "occupancy (match w6) opt \<le> mx" for opt
    proof -
      have "occupancy (match w6) opt
            = occupancy (match w4) opt + count_list (take (length (drop (length ?uf) unhappy)) spots) opt"
        using fill_spots_occupancy[OF fs] s2 by simp
      also have "\<dots> \<le> occupancy (match w4) opt + count_list spots opt"
        using count_list_take_le by simp
      also have "count_list spots opt = count_list (list_empty_spots (match w4) mn mx) opt"
        using s2 by (intro count_list_mset) simp
      also have "occupancy (match w4) opt + count_list (list_empty_spots (match w4) mn mx) opt \<le> mx"
        using hi4[of opt] by (simp add: count_list_empty_spots[OF wf4])
      finally show ?thesis by simp
    qed
    moreover have "occupancy (match w4) opt \<le> occupancy (match w6) opt" for opt
      using fill_spots_occupancy[OF fs, of opt] s2 by simp
    ultimately show ?thesis using wf4 k4 s2 c by (simp add: evolves_def)
  next
    case False
    with f2 wf4 k4 hi4 show ?thesis by auto
  qed
  from reduce_to_pairs_occupancy[OF _ rp] b
  have p: "map fst pairs = map fst (by_student (match w))"
          "count_list (map snd pairs) opt = occupancy (match w6) opt" for opt
    by simp_all
  have "mn \<le> count_list (map snd pairs) opt \<and> count_list (map snd pairs) opt \<le> mx"
    if "opt \<in> set (map fst (by_option (match w)))" for opt
    using that lo4[of opt] b p(2)[of opt] by (auto intro: order_trans)
  with p(1) show ?thesis by (simp add: good_pairs_def list_all_iff)
qed

lemma unlocked_of_Inr:
  "unlocked_of m xs = Inr rem \<Longrightarrow> rem = filter (\<lambda>s. map_of (student_locked m) s = Some False) xs"
proof (induction xs arbitrary: rem)
  case Nil
  then show ?case by simp
next
  case (Cons s xs)
  then show ?case
    by (auto simp: is_locked_def split: sum.splits option.splits if_splits)
qed

lemma combinations_elem:
  "g \<in> set (combinations xs k) \<Longrightarrow> length g = k \<and> set g \<subseteq> set xs"
proof (induction xs k arbitrary: g rule: combinations.induct)
  case (1 xs)
  then show ?case by simp
next
  case (2 k)
  then show ?case by simp
next
  case (3 x xs k)
  from "3.prems" consider h where "g = x # h" "h \<in> set (combinations xs k)"
    | "g \<in> set (combinations xs (Suc k))" by auto
  then show ?case
  proof cases
    case 1
    with "3.IH"(1)[of h] show ?thesis by auto
  next
    case 2
    with "3.IH"(2)[of g] show ?thesis by auto
  qed
qed

lemma combinations_nonempty: "k \<le> length xs \<Longrightarrow> combinations xs k \<noteq> []"
proof (induction xs k rule: combinations.induct)
  case (1 xs)
  then show ?case by simp
next
  case (2 k)
  then show ?case by simp
next
  case (3 x xs k)
  then show ?case by simp
qed

lemma product_lists_nonempty:
  "\<forall>c \<in> set css. c \<noteq> [] \<Longrightarrow> product_lists css \<noteq> []"
proof (induction css)
  case Nil
  then show ?case by simp
next
  case (Cons c css)
  then obtain x xs where c: "c = x # xs" by (cases c) auto
  from Cons have "product_lists css \<noteq> []" by simp
  then show ?case by (simp add: c)
qed

text \<open>What \<^verbatim>\<open>make_trim_iterable\<close> returns for each overfilled option.\<close>

lemma make_trim_iterables_Inr:
  "make_trim_iterables m opts mx = Inr iterables \<Longrightarrow>
     list_all2 (\<lambda>opt combos. \<exists>xs. map_of (by_option m) opt = Some xs \<and> length xs > mx \<and>
         combos = combinations (filter (\<lambda>s. map_of (student_locked m) s = Some False) xs)
                    (length xs - mx)) opts iterables"
proof (induction opts arbitrary: iterables)
  case Nil
  then show ?case by simp
next
  case (Cons opt opts)
  from Cons.prems obtain combos rest where
    1: "make_trim_iterable m opt mx = Inr combos"
    and 2: "make_trim_iterables m opts mx = Inr rest"
    and i: "iterables = combos # rest"
    by (auto split: sum.splits)
  from 1 obtain xs rem where "map_of (by_option m) opt = Some xs" "length xs > mx"
    "unlocked_of m xs = Inr rem" "combos = combinations rem (length xs - mx)"
    by (auto simp: make_trim_iterable_def split: option.splits if_splits sum.splits)
  with unlocked_of_Inr[of m xs rem] Cons.IH[OF 2] i show ?case by auto
qed

lemma trim_groups:
  assumes "make_trim_iterables m opts mx = Inr iterables"
      and "trim \<in> set (product_lists iterables)"
  shows "list_all2 (\<lambda>g opt. \<exists>xs. map_of (by_option m) opt = Some xs \<and> length xs > mx \<and>
            length g = length xs - mx \<and> set g \<subseteq> set xs) trim opts"
proof -
  from assms(2) have a: "list_all2 (\<lambda>g combos. g \<in> set combos) trim iterables"
    by (simp add: product_lists_set)
  note b = make_trim_iterables_Inr[OF assms(1)]
  have "list_all2 (\<lambda>g opt. \<exists>combos. g \<in> set combos \<and>
           (\<exists>xs. map_of (by_option m) opt = Some xs \<and> length xs > mx \<and>
         combos = combinations (filter (\<lambda>s. map_of (student_locked m) s = Some False) xs)
                    (length xs - mx))) trim opts"
    unfolding list_all2_conv_all_nth
  proof (intro conjI allI impI)
    show "length trim = length opts"
      using a b by (simp add: list_all2_conv_all_nth)
  next
    fix i assume i: "i < length trim"
    with a have 1: "trim ! i \<in> set (iterables ! i)" by (simp add: list_all2_conv_all_nth)
    from a i have "i < length opts" using b by (simp add: list_all2_conv_all_nth)
    with b have "\<exists>xs. map_of (by_option m) (opts ! i) = Some xs \<and> length xs > mx \<and>
         iterables ! i = combinations (filter (\<lambda>s. map_of (student_locked m) s = Some False) xs)
                    (length xs - mx)"
      by (simp add: list_all2_conv_all_nth)
    with 1 show "\<exists>combos. trim ! i \<in> set combos \<and>
           (\<exists>xs. map_of (by_option m) (opts ! i) = Some xs \<and> length xs > mx \<and>
         combos = combinations (filter (\<lambda>s. map_of (student_locked m) s = Some False) xs)
                    (length xs - mx))" by blast
  qed
  then show ?thesis
    by (rule list_all2_mono) (auto dest!: combinations_elem)
qed

lemma trimmed_count:
  assumes wf: "well_formed m"
      and g: "list_all2 (\<lambda>g opt. \<exists>xs. map_of (by_option m) opt = Some xs \<and> length xs > mx \<and>
            length g = length xs - mx \<and> set g \<subseteq> set xs) trim opts"
      and d: "distinct opts"
  shows "length (filter (\<lambda>s. map_of (by_student m) s = Some (Some o')) (concat trim))
         = (if o' \<in> set opts then occupancy m o' - mx else 0)"
  using g d
proof (induction trim opts rule: list_all2_induct)
  case Nil
  then show ?case by simp
next
  case (Cons g trim opt opts)
  from Cons.hyps(1) obtain xs where xs: "map_of (by_option m) opt = Some xs"
    "length g = length xs - mx" "set g \<subseteq> set xs" by blast
  from wf xs(1) have sx: "set xs = {s. map_of (by_student m) s = Some (Some opt)}"
    unfolding well_formed_def by blast
  have len: "length xs = occupancy m opt" using wf xs(1) by (rule occupancy_length)
  have f: "filter (\<lambda>s. map_of (by_student m) s = Some (Some o')) g = (if o' = opt then g else [])"
    using xs(3) sx by (auto simp: filter_empty_conv filter_id_conv)
  from Cons.prems have "distinct opts" "opt \<notin> set opts" by simp_all
  with Cons.IH f xs(2) len show ?case by auto
qed

lemma overfilled_options:
  assumes "distinct (map fst (by_option m))"
  shows "distinct (list_overfilled_options m mx) \<and>
         (o' \<in> set (list_overfilled_options m mx) \<longleftrightarrow>
            (\<exists>xs. map_of (by_option m) o' = Some xs \<and> length xs > mx))"
proof -
  have "distinct (map fst (filter (\<lambda>(opt, xs). length xs > mx) (by_option m)))"
    using assms by (rule distinct_map_filter)
  moreover have "o' \<in> set (list_overfilled_options m mx) \<longleftrightarrow>
      (\<exists>xs. map_of (by_option m) o' = Some xs \<and> length xs > mx)"
  proof
    assume "o' \<in> set (list_overfilled_options m mx)"
    then obtain xs where "(o', xs) \<in> set (by_option m)" "length xs > mx"
      by (auto simp: list_overfilled_options_def)
    with assms show "\<exists>xs. map_of (by_option m) o' = Some xs \<and> length xs > mx" by auto
  next
    assume "\<exists>xs. map_of (by_option m) o' = Some xs \<and> length xs > mx"
    then obtain xs where "map_of (by_option m) o' = Some xs" "length xs > mx" by blast
    then have "(o', xs) \<in> set (filter (\<lambda>(opt, xs). length xs > mx) (by_option m))"
      by (auto dest: map_of_SomeD)
    then have "fst (o', xs) \<in> fst ` set (filter (\<lambda>(opt, xs). length xs > mx) (by_option m))"
      by (rule imageI)
    then show "o' \<in> set (list_overfilled_options m mx)"
      by (simp add: list_overfilled_options_def)
  qed
  ultimately show ?thesis by (simp add: list_overfilled_options_def)
qed

text \<open>Removing the students of one trim from the matching the trims were made for brings
  every option down to at most \<open>max_per_option\<close> students.\<close>

lemma trim_caps:
  assumes wf: "well_formed m"
      and it: "make_trim_iterables m (list_overfilled_options m mx) mx = Inr iterables"
      and tr: "trim \<in> set (product_lists iterables)"
  shows "occupancy m o' - length (filter (\<lambda>s. map_of (by_student m) s = Some (Some o')) (concat trim))
         \<le> mx"
proof -
  have d: "distinct (map fst (by_option m))" using wf by (simp add: well_formed_def)
  note ov = overfilled_options[OF d, of mx]
  from trimmed_count[OF wf trim_groups[OF it tr], of o'] ov
  have c: "length (filter (\<lambda>s. map_of (by_student m) s = Some (Some o')) (concat trim))
         = (if o' \<in> set (list_overfilled_options m mx) then occupancy m o' - mx else 0)"
    by simp
  show ?thesis
  proof (cases "o' \<in> set (list_overfilled_options m mx)")
    case True
    with c show ?thesis by simp
  next
    case False
    have "occupancy m o' \<le> mx"
    proof (cases "map_of (by_option m) o'")
      case None
      with wf show ?thesis by (simp add: occupancy_nonkey)
    next
      case (Some xs)
      with False ov[of o'] have "length xs \<le> mx" by auto
      with wf Some show ?thesis by (simp add: occupancy_length)
    qed
    with c False show ?thesis by simp
  qed
qed

lemma length_filter_mono:
  "(\<And>x. x \<in> set xs \<Longrightarrow> P x \<Longrightarrow> Q x) \<Longrightarrow> length (filter P xs) \<le> length (filter Q xs)"
  by (induction xs) auto

text \<open>At the entry of a stage no option is over its maximum, and the students the stage
  assigns are unlocked: an option that the stage overfills holds enough unlocked students
  to be trimmed back to the maximum.\<close>

lemma removable_enough:
  assumes wf: "well_formed (match w)" and cap: "cap_ok mx (match w)"
      and st: "assign_stage students stage w = (Inr names, w1)"
      and opt: "map_of (by_option (match w1)) opt = Some xs"
  shows "length xs - mx \<le> length (filter (\<lambda>s. map_of (student_locked (match w1)) s = Some False) xs)"
proof -
  note a = assign_stage_effect[OF st]
  have wf1: "well_formed (match w1)" using wf a by (simp add: evolves_def)
  from wf1 opt have dx: "distinct xs"
    and sx: "set xs = {s. map_of (by_student (match w1)) s = Some (Some opt)}"
    unfolding well_formed_def by blast+
  let ?A = "filter (\<lambda>s. s \<in> set names) xs"
  let ?B = "filter (\<lambda>s. s \<notin> set names) xs"
  have len: "length xs = length ?A + length ?B"
    using sum_length_filter_compl[of "\<lambda>s. s \<in> set names" xs] by simp
  have "set ?B \<subseteq> {s. map_of (by_student (match w)) s = Some (Some opt)}"
    using sx a by auto
  then have "card (set ?B) \<le> occupancy (match w) opt"
    unfolding occupancy_def by (intro card_mono finite_matched)
  moreover have "distinct ?B" using dx by simp
  then have "card (set ?B) = length ?B" by (rule distinct_card)
  moreover have "occupancy (match w) opt \<le> mx"
    using cap cap_ok_occupancy[OF wf] by simp
  ultimately have b: "length ?B \<le> mx" by simp
  have "length ?A \<le> length (filter (\<lambda>s. map_of (student_locked (match w1)) s = Some False) xs)"
    using a by (intro length_filter_mono) auto
  with len b show ?thesis by simp
qed

lemma trims_nonempty:
  assumes wf: "well_formed (match w)" and cap: "cap_ok mx (match w)"
      and st: "assign_stage students stage w = (Inr names, w1)"
      and it: "make_trim_iterables (match w1) opts mx = Inr iterables"
  shows "product_lists iterables \<noteq> []"
proof (rule product_lists_nonempty, rule ballI)
  fix c assume "c \<in> set iterables"
  then obtain i where i: "i < length iterables" "c = iterables ! i"
    by (auto simp: in_set_conv_nth)
  from make_trim_iterables_Inr[OF it] i obtain xs where
    xs: "map_of (by_option (match w1)) (opts ! i) = Some xs"
    and c: "c = combinations (filter (\<lambda>s. map_of (student_locked (match w1)) s = Some False) xs)
                    (length xs - mx)"
    by (auto simp: list_all2_conv_all_nth)
  from removable_enough[OF wf cap st xs] show "c \<noteq> []"
    unfolding c by (rule combinations_nonempty)
qed

text \<open>The loop over the trims: when every call of the next stage, started in a well-formed
  matching within the maximum, records at least one pair list and only pair lists with the
  property \<open>P\<close>, so does the loop, provided there is a trim at all.\<close>

lemma trim_loop_good:
  assumes frame: "\<And>v r v'. well_formed (match v) \<Longrightarrow> recurse v = (Inr r, v') \<Longrightarrow> restored v v'"
      and good: "\<And>v r v'. well_formed (match v) \<Longrightarrow> cap_ok mx (match v) \<Longrightarrow>
                   map fst (by_student (match v)) = ks \<Longrightarrow> map fst (by_option (match v)) = ko \<Longrightarrow>
                   recurse v = (Inr r, v') \<Longrightarrow>
                   \<exists>new. explored v' = new @ explored v \<and> new \<noteq> [] \<and> list_all P new"
      and keys: "map fst (by_student (match w1)) = ks" "map fst (by_option (match w1)) = ko"
  shows "\<forall>trim \<in> set trims. \<forall>o'. occupancy (match w1) o' -
            length (filter (\<lambda>s. map_of (by_student (match w1)) s = Some (Some o')) (concat trim)) \<le> mx \<Longrightarrow>
         restored w1 w \<Longrightarrow>
         trim_loop recurse trims best w = (Inr r, w') \<Longrightarrow>
         \<exists>new. explored w' = new @ explored w \<and> (trims \<noteq> [] \<longrightarrow> new \<noteq> []) \<and> list_all P new"
proof (induction trims arbitrary: best w)
  case Nil
  then show ?case by simp
next
  case (Cons trim trims)
  from trim_loop_Cons_Inr[OF Cons.prems(3)] obtain saved wa locked wb new wc wd best' we where
    s: "remove_trimmed (concat trim) w = (Inr saved, wa)"
       "lock_all_matched wa = (Inr locked, wb)"
       "recurse wb = (Inr new, wc)"
       "unlock_many locked wc = (Inr (), wd)"
       "assign_pairs saved wd = (Inr (), we)"
       "trim_loop recurse trims best' we = (Inr r, w')"
    by blast
  from Cons.prems(2) have wf: "well_formed (match w)"
    and bs: "by_student (match w) = by_student (match w1)"
    and kw: "map fst (by_option (match w)) = map fst (by_option (match w1))"
    by (simp_all add: restored_def)
  from trim_iteration_frame[where recurse = recurse, OF wf _ s(1) s(2) s(3) s(4) s(5)] frame
  have r5: "restored w we" and wfb: "well_formed (match wb)" by simp_all
  note a = remove_trimmed_effect[OF s(1)]
  note b = lock_matched_loop_effect[OF s(2)[unfolded lock_all_matched_def]]
  have occ: "occupancy (match wb) o' \<le> mx" for o'
  proof -
    have "occupancy (match wb) o' = occupancy (match wa) o'"
      using b by (simp add: occupancy_def)
    also have "\<dots> = occupancy (match w) o' -
        length (filter (\<lambda>s. map_of (by_student (match w)) s = Some (Some o')) (concat trim))"
      using s(1) by (rule remove_trimmed_occupancy)
    also have "\<dots> = occupancy (match w1) o' -
        length (filter (\<lambda>s. map_of (by_student (match w1)) s = Some (Some o')) (concat trim))"
      by (simp add: bs occupancy_def)
    also have "\<dots> \<le> mx" using Cons.prems(1) by simp
    finally show ?thesis .
  qed
  then have capb: "cap_ok mx (match wb)" using cap_ok_occupancy[OF wfb] by simp
  have kb: "map fst (by_student (match wb)) = ks" "map fst (by_option (match wb)) = ko"
    using a b bs kw keys by (simp_all add: evolves_def)
  from good[OF wfb capb kb s(3)] obtain new1 where
    n1: "explored wc = new1 @ explored wb" "new1 \<noteq> []" "list_all P new1" by blast
  from trim_iteration_explored[OF s(1) s(2) s(4) s(5)]
  have e: "explored wb = explored w" "explored we = explored wc" by simp_all
  have "\<forall>trim \<in> set trims. \<forall>o'. occupancy (match w1) o' -
            length (filter (\<lambda>s. map_of (by_student (match w1)) s = Some (Some o')) (concat trim)) \<le> mx"
    using Cons.prems(1) by simp
  from Cons.IH[OF this restored_trans[OF Cons.prems(2) r5] s(6)] obtain new2 where
    n2: "explored w' = new2 @ explored we" "list_all P new2" by blast
  have "explored w' = (new2 @ new1) @ explored w" using n1 n2 e by simp
  moreover have "new2 @ new1 \<noteq> []" using n1 by simp
  moreover have "list_all P (new2 @ new1)" using n1 n2 by simp
  ultimately show ?case by blast
qed

lemma good_pairs_keys:
  "evolves m m' \<Longrightarrow> map fst (by_student m') = map fst (by_student m) \<and>
      map fst (by_option m') = map fst (by_option m)"
  by (simp add: evolves_def)

text \<open>Every call of the search that starts in a well-formed matching within the maximum and
  returns has recorded at least one pair list, and every pair list it recorded is good.\<close>

lemma raa_good:
  "well_formed (match w) \<Longrightarrow> cap_ok mx (match w) \<Longrightarrow> mn \<le> mx \<Longrightarrow>
   map fst (by_student (match w)) = ks \<Longrightarrow> map fst (by_option (match w)) = ko \<Longrightarrow>
   recursive_assignment_algorithm students options n_choices mn mx stage w = (Inr r, w') \<Longrightarrow>
   \<exists>new. explored w' = new @ explored w \<and> new \<noteq> [] \<and>
         list_all (\<lambda>(pairs, score). good_pairs ks ko mn mx pairs) new"
proof (induction stage arbitrary: w r w' rule: stage_induct[where n_choices = n_choices])
  case (1 stage)
  from raa_Inr_base[OF "1.hyps" "1.prems"(6)] obtain pairs score where
    b: "assignment_algorithm_base_case students options n_choices mn mx w = (Inr (pairs, score), w')"
    by blast
  from base_case_good[OF "1.prems"(1,2,3) b] "1.prems"(4,5)
  have "good_pairs ks ko mn mx pairs" by simp
  with base_case_explored[OF b] show ?case by simp
next
  case (2 stage)
  from raa_Inr_stage[OF "2.hyps" "2.prems"(6)] obtain assigned w1 iterables w2 where
    s: "assign_stage students stage w = (Inr assigned, w1)"
       "make_trim_iterables (match w1) (list_overfilled_options (match w1) mx) mx = Inr iterables"
       "trim_loop (recursive_assignment_algorithm students options n_choices mn mx (stage + 1))
          (product_lists iterables) (None, None) w1 = (Inr r, w2)"
       "erase_many assigned w2 = (Inr (), w')"
    by blast
  note a = assign_stage_effect[OF s(1)]
  have wf1: "well_formed (match w1)" using "2.prems"(1) a by (simp add: evolves_def)
  have k1: "map fst (by_student (match w1)) = ks" "map fst (by_option (match w1)) = ko"
    using a "2.prems"(4,5) by (simp_all add: evolves_def)
  have caps: "\<forall>trim \<in> set (product_lists iterables). \<forall>o'. occupancy (match w1) o' -
            length (filter (\<lambda>s. map_of (by_student (match w1)) s = Some (Some o')) (concat trim)) \<le> mx"
    using trim_caps[OF wf1 s(2)] by blast
  have ne: "product_lists iterables \<noteq> []"
    using trims_nonempty[OF "2.prems"(1,2) s(1) s(2)] .
  have "\<exists>new. explored w2 = new @ explored w1 \<and> (product_lists iterables \<noteq> [] \<longrightarrow> new \<noteq> []) \<and>
         list_all (\<lambda>(pairs, score). good_pairs ks ko mn mx pairs) new"
  proof (rule trim_loop_good[where
        recurse = "recursive_assignment_algorithm students options n_choices mn mx (stage + 1)"
        and P = "\<lambda>(pairs, score). good_pairs ks ko mn mx pairs" and ks = ks and ko = ko,
        OF _ _ k1 caps restored_refl[OF wf1] s(3)])
    fix v r v'
    assume "well_formed (match v)"
       "recursive_assignment_algorithm students options n_choices mn mx (stage + 1) v = (Inr r, v')"
    then show "restored v v'" by (rule raa_frame)
  next
    fix v r v'
    assume p: "well_formed (match v)" "cap_ok mx (match v)"
       "map fst (by_student (match v)) = ks" "map fst (by_option (match v)) = ko"
       "recursive_assignment_algorithm students options n_choices mn mx (stage + 1) v = (Inr r, v')"
    show "\<exists>new. explored v' = new @ explored v \<and> new \<noteq> [] \<and>
         list_all (\<lambda>(pairs, score). good_pairs ks ko mn mx pairs) new"
      using "2.IH"[OF p(1,2) "2.prems"(3) p(3,4,5)] .
  qed
  with ne obtain new where n: "explored w2 = new @ explored w1" "new \<noteq> []"
      "list_all (\<lambda>(pairs, score). good_pairs ks ko mn mx pairs) new"
    by blast
  have "explored w1 = explored w" using a by (simp add: rest_same_def)
  moreover have "explored w' = explored w2"
    using erase_many_effect[OF s(4)] by (simp add: rest_same_def)
  ultimately show ?case using n by auto
qed

lemma length_update_fresh:
  "length (AList.update k v d) = (if k \<in> fst ` set d then length d else Suc (length d))"
  by (induction d) auto

lemma length_fold_update_le:
  "length (fold (\<lambda>a d. AList.update (f a) v d) xs d) \<le> length d + length xs"
proof (induction xs arbitrary: d)
  case Nil
  then show ?case by simp
next
  case (Cons a xs)
  have "length (fold (\<lambda>a d. AList.update (f a) v d) xs (AList.update (f a) v d))
        \<le> length (AList.update (f a) v d) + length xs" by (rule Cons.IH)
  also have "\<dots> \<le> Suc (length d) + length xs" by (simp add: length_update_fresh)
  finally show ?case by simp
qed

text \<open>The assertions of \<^verbatim>\<open>Matching.__init__\<close> compare the sizes of the dicts with the lengths of
  the lists: they hold only when no key is repeated, and then the dict has the keys of the
  list, in the order of the list.\<close>

lemma fold_update_full:
  "length (fold (\<lambda>a d. AList.update (f a) v d) xs d) = length d + length xs \<Longrightarrow>
   map fst (fold (\<lambda>a d. AList.update (f a) v d) xs d) = map fst d @ map f xs"
proof (induction xs arbitrary: d)
  case Nil
  then show ?case by simp
next
  case (Cons a xs)
  let ?d1 = "AList.update (f a) v d"
  from Cons.prems have l: "length (fold (\<lambda>a d. AList.update (f a) v d) xs ?d1) = Suc (length d + length xs)"
    by simp
  with length_fold_update_le[of f v xs ?d1] have "Suc (length d) \<le> length ?d1" by simp
  then have fresh: "f a \<notin> fst ` set d" by (simp add: length_update_fresh split: if_splits)
  then have u: "?d1 = d @ [(f a, v)]" by (induction d) auto
  from l u have "length (fold (\<lambda>a d. AList.update (f a) v d) xs ?d1) = length ?d1 + length xs"
    by simp
  from Cons.IH[OF this] u show ?case by simp
qed

lemma Matching_init_keys:
  assumes "Matching_init students options = Inr m"
  shows "map fst (by_student m) = map name students \<and> map fst (by_option m) = options \<and>
         distinct (map name students) \<and> distinct options"
proof -
  let ?bs = "fold (\<lambda>st d. AList.update (name st) (None :: string option) d) students []"
  let ?bo = "fold (\<lambda>opt d. AList.update opt ([] :: string list) d) options []"
  from assms have bs: "by_student m = ?bs" and bo: "by_option m = ?bo"
    and len: "length ?bs = length students" "length ?bo = length options"
    by (auto simp: Matching_init_def Let_def split: if_splits)
  have 1: "map fst ?bs = map name students"
    using fold_update_full[of name None students "[]"] len(1) by simp
  have 2: "map fst ?bo = options"
    using fold_update_full[of "\<lambda>x. x" "[]" options "[]"] len(2) by simp
  from Matching_init_well_formed[OF assms, of 0]
  have "distinct (map fst (by_student m))" "distinct (map fst (by_option m))"
    by (simp_all add: well_formed_def)
  with 1 2 show ?thesis by (simp add: bs bo)
qed

text \<open>
  Claim C2. A run of the staged engine is a call of \<^verbatim>\<open>recursive_assignment_algorithm\<close> on the
  matching that \<^verbatim>\<open>Matching.__init__\<close> builds for the students and the options, with
  \<open>min_per_option \<le> max_per_option\<close>. When the run returns, it returns a pair list (not
  \<^verbatim>\<open>None\<close>); the pair list names the students, each exactly once and in the order of the
  student list; and for each option the number of pairs naming that option is at least
  \<open>min_per_option\<close> and at most \<open>max_per_option\<close>.
\<close>

theorem returned_pairs_complete_within_capacity:
  assumes "Matching_init students options = Inr m"
      and "min_per_option \<le> max_per_option"
      and "recursive_assignment_algorithm students options n_choices min_per_option
             max_per_option stage (initial_world m rnd) = (Inr (best_match, best_score), w')"
  shows "\<exists>pairs. best_match = Some pairs \<and>
           map fst pairs = map name students \<and> distinct (map fst pairs) \<and>
           list_all (\<lambda>opt. min_per_option \<le> count_list (map snd pairs) opt \<and>
                          count_list (map snd pairs) opt \<le> max_per_option) options"
proof -
  let ?w = "initial_world m rnd"
  from Matching_init_well_formed[OF assms(1), of max_per_option]
  have wf: "well_formed (match ?w)" and cap: "cap_ok max_per_option (match ?w)"
    by (simp_all add: initial_world_def)
  from Matching_init_keys[OF assms(1)]
  have k: "map fst (by_student (match ?w)) = map name students"
          "map fst (by_option (match ?w)) = options"
    and d: "distinct (map name students)"
    by (simp_all add: initial_world_def)
  from raa_good[OF wf cap assms(2) k assms(3)] obtain new where
    n: "explored w' = new @ explored ?w" "new \<noteq> []"
       "list_all (\<lambda>(pairs, score). good_pairs (map name students) options
                    min_per_option max_per_option pairs) new"
    by blast
  from raa_explores[OF assms(3)] obtain new' where
    n': "explored w' = new' @ explored ?w" "dominates (best_match, best_score) new'"
    by (auto simp: explores_def)
  from n(1) n'(1) have "new' = new" by simp
  with n'(2) n(2) obtain pairs b where
    r: "best_match = Some pairs" "(pairs, b) \<in> set new"
    by (cases new) (auto simp: dominates_def split: option.splits)
  with n(3) have "good_pairs (map name students) options min_per_option max_per_option pairs"
    by (auto simp: list_all_iff)
  with r(1) d show ?thesis by (auto simp: good_pairs_def)
qed

theorem returned_pairs_complete_within_capacity_witness:
  "Matching_init example_students [''X'', ''Y''] = Inr example_matching \<and>
   fst (recursive_assignment_algorithm example_students [''X'', ''Y''] 1 1 2 1
          (initial_world example_matching (\<lambda>_. 0)))
     = Inr (Some [(''a'', ''Y''), (''b'', ''X''), (''c'', ''X'')], Some [2, 2, 1]) \<and>
   map fst [(''a'', ''Y''), (''b'', ''X''), (''c'', ''X'')] = map name example_students \<and>
   list_all (\<lambda>opt. 1 \<le> count_list (map snd [(''a'', ''Y''), (''b'', ''X''), (''c'', ''X'')]) opt \<and>
                  count_list (map snd [(''a'', ''Y''), (''b'', ''X''), (''c'', ''X'')]) opt \<le> 2)
     [''X'', ''Y'']"
proof -
  let ?w = "initial_world example_matching (\<lambda>_. 0)"
  let ?run = "recursive_assignment_algorithm example_students [''X'', ''Y''] 1 1 2 1 ?w"
  let ?ps = "[(''a'', ''Y''), (''b'', ''X''), (''c'', ''X'')]"
  have i: "Matching_init example_students [''X'', ''Y''] = Inr example_matching" by code_simp
  have f: "fst ?run = Inr (Some ?ps, Some [2, 2, 1])" by code_simp
  then have run: "?run = (Inr (Some ?ps, Some [2, 2, 1]), snd ?run)"
    by (metis prod.collapse)
  have le: "(1::nat) \<le> 2" by simp
  from returned_pairs_complete_within_capacity[OF i le run] obtain pairs where
    p: "Some ?ps = Some pairs" "map fst pairs = map name example_students"
       "list_all (\<lambda>opt. 1 \<le> count_list (map snd pairs) opt \<and>
                          count_list (map snd pairs) opt \<le> 2) [''X'', ''Y'']"
    by blast
  from p(1) have e: "pairs = ?ps" by simp
  show ?thesis by (rule conjI[OF i conjI[OF f conjI[OF p(2)[unfolded e] p(3)[unfolded e]]]])
qed

end
